theory Spec2Isabelle
  imports Complex_Main "HOL-Library.Sublist" "HOL-Library.Product_Lexorder"
begin

section \<open>JavaScript values used by the memory bridge\<close>

text \<open>
  Strings are lists of code units. \<open>String.prototype.trim\<close> strips white space and line
  terminators from both ends; among the code units a \<open>char\<close> can hold these are TAB, LF, VT,
  FF, CR, SPACE and NBSP. \<open>startsWith\<close> is \<open>prefix\<close>, \<open>slice(0, n)\<close> is \<open>take n\<close> and
  \<open>length\<close> is \<open>length\<close>.
\<close>

definition js_whitespace :: "char \<Rightarrow> bool" where
  "js_whitespace c =
     (c = CHR 0x09 \<or> c = CHR 0x0A \<or> c = CHR 0x0B \<or> c = CHR 0x0C \<or> c = CHR 0x0D
      \<or> c = CHR 0x20 \<or> c = CHR 0xA0)"

definition trim :: "string \<Rightarrow> string" where
  "trim s = rev (dropWhile js_whitespace (rev (dropWhile js_whitespace s)))"

definition startsWith :: "string \<Rightarrow> string \<Rightarrow> bool" where
  "startsWith s p = prefix p s"

text \<open>A thrown \<open>Error(message)\<close>.\<close>

datatype error = Error string

text \<open>
  A value of type \<open>number\<close>: finite, or one of the three that \<open>Number.isFinite\<close> refuses.
  (A JSON number too large for a double parses to \<open>Infinity\<close>.)
\<close>

datatype number = Finite real | Infinity | NegInfinity | NaN

text \<open>Values of type \<open>unknown\<close> that arrive as parsed JSON.\<close>

datatype json =
    JNull
  | JBool bool
  | JNum number
  | JStr string
  | JArr "json list"
  | JObj "(string \<times> json) list"

text \<open>\<open>asRecord\<close>: an object that is neither null nor an array.\<close>

fun asRecord :: "json option \<Rightarrow> (string \<times> json) list option" where
  "asRecord (Some (JObj props)) = Some props"
| "asRecord _ = None"

subsection \<open>Facts about \<open>trim\<close>\<close>

lemma dropWhile_fix: "xs = [] \<or> \<not> P (hd xs) \<Longrightarrow> dropWhile P xs = xs"
  by (cases xs) auto

lemma strip_end_prefix: "\<exists>x. u = rev (dropWhile P (rev u)) @ x"
  by (metis rev_append rev_rev_ident takeWhile_dropWhile_id)

lemma trim_no_leading: "trim s = [] \<or> \<not> js_whitespace (hd (trim s))"
proof (cases "trim s = []")
  case True
  then show ?thesis by simp
next
  case False
  let ?u = "dropWhile js_whitespace s"
  obtain x where x: "?u = trim s @ x"
    using strip_end_prefix[of ?u js_whitespace] by (auto simp: trim_def)
  with False have "hd (trim s) = hd ?u" by simp
  moreover from x False have "?u \<noteq> []" by auto
  then have "\<not> js_whitespace (hd ?u)" by (rule hd_dropWhile)
  ultimately show ?thesis by simp
qed

lemma trim_no_trailing: "dropWhile js_whitespace (rev (trim s)) = rev (trim s)"
  by (simp add: trim_def)

lemma trim_trim [simp]: "trim (trim s) = trim s"
proof -
  have "dropWhile js_whitespace (trim s) = trim s"
    using trim_no_leading[of s] by (intro dropWhile_fix) auto
  then show ?thesis
    using trim_no_trailing[of s] by (simp add: trim_def[of "trim s"])
qed

section \<open>Resolved configuration (backend-config.ts)\<close>

datatype OpenVikingCommitMode = Sync | Async

record ResolvedOpenVikingCommitTriggers =
  sessionEnd :: bool
  reset :: bool
  everyNMessages :: int
  everyNMinutes :: int

record ResolvedOpenVikingCommitConfig =
  mode :: OpenVikingCommitMode
  triggers :: ResolvedOpenVikingCommitTriggers

record ResolvedOpenVikingOutboxConfig =
  outbox_enabled :: bool
  flushIntervalMs :: int
  maxBatchSize :: int
  retryBaseMs :: int
  retryMaxMs :: int

record ResolvedOpenVikingFsWriteConfig =
  fsWrite_enabled :: bool
  allowUriPrefixes :: "string list"
  denyUriPrefixes :: "string list"
  protectedUris :: "string list"
  allowRecursiveRm :: bool

datatype OpenVikingSearchStrategy = Auto | Memory_first | Resource_first | Skill_first

datatype OpenVikingSearchReadLayer = RL0 | RL1 | RL2 | Progressive

record ResolvedOpenVikingSearchConfig =
  limit :: int
  scoreThreshold :: "real option"
  targetUri :: string
  includeResources :: bool
  includeSkills :: bool
  strategy :: OpenVikingSearchStrategy
  readLayer :: OpenVikingSearchReadLayer
  maxEntries :: int
  maxSnippetChars :: int
  maxInjectedChars :: int
  relationExpansion :: bool

record ResolvedOpenVikingConfig =
  dualWrite :: bool
  commit :: ResolvedOpenVikingCommitConfig
  outbox :: ResolvedOpenVikingOutboxConfig
  fsWrite :: "ResolvedOpenVikingFsWriteConfig option"
  search :: ResolvedOpenVikingSearchConfig

text \<open>A configuration as \<open>resolveOpenVikingConfig\<close> produces it, for the examples.\<close>

definition exampleConfig :: "OpenVikingCommitMode \<Rightarrow> int \<Rightarrow> ResolvedOpenVikingConfig" where
  "exampleConfig m n =
     \<lparr>dualWrite = True,
      commit = \<lparr>mode = m,
                triggers = \<lparr>sessionEnd = True, reset = True, everyNMessages = n, everyNMinutes = 12\<rparr>\<rparr>,
      outbox = \<lparr>outbox_enabled = True, flushIntervalMs = 2000, maxBatchSize = 25,
                retryBaseMs = 1000, retryMaxMs = 60000\<rparr>,
      fsWrite = None,
      search = \<lparr>limit = 10, scoreThreshold = None, targetUri = [], includeResources = False,
                includeSkills = False, strategy = Auto, readLayer = Progressive, maxEntries = 6,
                maxSnippetChars = 560, maxInjectedChars = 3200, relationExpansion = False\<rparr>\<rparr>"

section \<open>Write bridge (bridge.ts)\<close>

record OpenVikingSessionEvent =
  event_id :: string
  event_type :: string
  role :: "string option"
  content :: "string option"
  cause :: "string option"
  metadata :: "(string \<times> json) list option"

text \<open>The fields this subsystem keeps in an entry of the host's session store.\<close>

record SessionEntry =
  openvikingSessionId :: "string option"
  lastSyncedSeq :: "int option"
  lastCommitAt :: "int option"

record BridgeRuntimeStats =
  eventsQueued :: nat
  messageEventsQueued :: nat
  toolEventsQueued :: nat
  commitEventsQueued :: nat
  syncCommits :: nat
  asyncCommits :: nat
  periodicCommitsByMessage :: nat
  periodicCommitsByTime :: nat
  sessionEndCommits :: nat
  resetCommits :: nat
  manualCommits :: nat
  lastEventQueuedAt :: "int option"
  lastCommitQueuedAt :: "int option"
  lastCommitCause :: "string option"
  lastCommitSource :: "string option"
  lastCommitMode :: "OpenVikingCommitMode option"
  lastCommitLagMs :: "int option"
  lastPeriodicTriggerAt :: "int option"
  lastPeriodicTrigger :: "string option"

definition createInitialBridgeStats :: BridgeRuntimeStats where
  "createInitialBridgeStats =
     \<lparr>eventsQueued = 0, messageEventsQueued = 0, toolEventsQueued = 0, commitEventsQueued = 0,
      syncCommits = 0, asyncCommits = 0, periodicCommitsByMessage = 0, periodicCommitsByTime = 0,
      sessionEndCommits = 0, resetCommits = 0, manualCommits = 0,
      lastEventQueuedAt = None, lastCommitQueuedAt = None, lastCommitCause = None,
      lastCommitSource = None, lastCommitMode = None, lastCommitLagMs = None,
      lastPeriodicTriggerAt = None, lastPeriodicTrigger = None\<rparr>"

text \<open>
  The calls the bridge makes on the store client and on the outbox, in the order it makes them.
\<close>

datatype effect =
    CreateSession
  | OutboxEnqueue string string "OpenVikingSessionEvent list"
  | AddEventsBatch string "OpenVikingSessionEvent list"
  | CommitSession string string

text \<open>
  The state the bridge reads and writes: the session store file, the statistics of the memoised
  bridge instance, and the calls issued so far.
\<close>

record BridgeWorld =
  sessions :: "string \<rightharpoonup> SessionEntry"
  stats :: BridgeRuntimeStats
  issued :: "effect list"

text \<open>
  What the outside answers during one top-level call: the clock, the fresh UUIDs for the event and
  for a triggered commit event, and whether each client or outbox call returns or throws.
\<close>

record BridgeEnv =
  env_now :: int
  env_event_uuid :: string
  env_commit_uuid :: string
  env_createSession :: "error + string option"
  env_outboxEnqueue :: "string \<Rightarrow> OpenVikingSessionEvent list \<Rightarrow> error + unit"
  env_addEventsBatch :: "string \<Rightarrow> OpenVikingSessionEvent list \<Rightarrow> error + unit"
  env_commitSession :: "string \<Rightarrow> string \<Rightarrow> error + unit"

record BridgeContext =
  ctx_resolved :: ResolvedOpenVikingConfig
  ctx_sessionKey :: "string option"

text \<open>
  \<open>resolveContext\<close>: the configuration resolves to the openviking backend or the context is
  null; the session key is trimmed.
\<close>

definition resolveContext ::
  "ResolvedOpenVikingConfig option \<Rightarrow> string option \<Rightarrow> BridgeContext option" where
  "resolveContext cfg sessionKey =
     (case cfg of
        None \<Rightarrow> None
      | Some resolved \<Rightarrow> Some \<lparr>ctx_resolved = resolved, ctx_sessionKey = map_option trim sessionKey\<rparr>)"

text \<open>\<open>!context?.sessionKey\<close>: the context is null or its key is undefined or empty.\<close>

fun usableContext :: "BridgeContext option \<Rightarrow> (BridgeContext \<times> string) option" where
  "usableContext None = None"
| "usableContext (Some ctx) =
     (case ctx_sessionKey ctx of
        None \<Rightarrow> None
      | Some k \<Rightarrow> if k = [] then None else Some (ctx, k))"

definition normalizeRole :: "string option \<Rightarrow> string" where
  "normalizeRole r = (if r = Some ''user'' then ''user'' else ''assistant'')"

definition truncated_marker :: string where
  "truncated_marker = [CHR 0x0A, CHR 0x0A] @ ''[truncated]''"

definition normalizeEventContent :: "string option \<Rightarrow> string" where
  "normalizeEventContent c =
     (let trimmed = trim (case c of None \<Rightarrow> [] | Some s \<Rightarrow> s) in
      if trimmed = [] then []
      else if length trimmed > 16000 then take 16000 trimmed @ truncated_marker
      else trimmed)"

definition readSessionEntry :: "BridgeWorld \<Rightarrow> string option \<Rightarrow> SessionEntry option" where
  "readSessionEntry w sessionKey =
     (case map_option trim sessionKey of
        None \<Rightarrow> None
      | Some k \<Rightarrow> if k = [] then None else sessions w k)"

definition recordQueuedEvent :: "OpenVikingSessionEvent \<Rightarrow> BridgeRuntimeStats \<Rightarrow> BridgeRuntimeStats" where
  "recordQueuedEvent event st =
     (let st1 = st\<lparr>eventsQueued := eventsQueued st + 1\<rparr> in
      if event_type event = ''message'' then st1\<lparr>messageEventsQueued := messageEventsQueued st1 + 1\<rparr>
      else if event_type event = ''tool_result'' then st1\<lparr>toolEventsQueued := toolEventsQueued st1 + 1\<rparr>
      else if event_type event = ''commit'' then st1\<lparr>commitEventsQueued := commitEventsQueued st1 + 1\<rparr>
      else st1)"

definition recordQueuedEvents ::
  "int \<Rightarrow> OpenVikingSessionEvent list \<Rightarrow> BridgeRuntimeStats \<Rightarrow> BridgeRuntimeStats" where
  "recordQueuedEvents now events st =
     (if events = [] then st
      else (fold recordQueuedEvent events st)\<lparr>lastEventQueuedAt := Some now\<rparr>)"

definition recordCommit ::
  "int \<Rightarrow> OpenVikingCommitMode \<Rightarrow> string \<Rightarrow> string option \<Rightarrow> BridgeRuntimeStats \<Rightarrow> BridgeRuntimeStats" where
  "recordCommit now m cs source st =
     (let st1 = st\<lparr>lastCommitQueuedAt := Some now,
                    lastCommitCause := Some cs,
                    lastCommitSource :=
                      (case source of
                         None \<Rightarrow> None
                       | Some s \<Rightarrow> if trim s = [] then None else Some (trim s)),
                    lastCommitMode := Some m\<rparr>;
          st2 = (case lastEventQueuedAt st1 of
                   None \<Rightarrow> st1
                 | Some t \<Rightarrow> st1\<lparr>lastCommitLagMs := Some (max 0 (now - t))\<rparr>);
          st3 = (if m = Sync then st2\<lparr>syncCommits := syncCommits st2 + 1\<rparr>
                 else st2\<lparr>asyncCommits := asyncCommits st2 + 1\<rparr>)
      in
      if cs = ''session_end'' then st3\<lparr>sessionEndCommits := sessionEndCommits st3 + 1\<rparr>
      else if cs = ''reset'' then st3\<lparr>resetCommits := resetCommits st3 + 1\<rparr>
      else if cs = ''periodic'' \<and> source = Some ''message-threshold'' then
        st3\<lparr>periodicCommitsByMessage := periodicCommitsByMessage st3 + 1,
            lastPeriodicTrigger := Some ''message-threshold'',
            lastPeriodicTriggerAt := Some now\<rparr>
      else if cs = ''periodic'' \<and> source = Some ''time-threshold'' then
        st3\<lparr>periodicCommitsByTime := periodicCommitsByTime st3 + 1,
            lastPeriodicTrigger := Some ''time-threshold'',
            lastPeriodicTriggerAt := Some now\<rparr>
      else st3\<lparr>manualCommits := manualCommits st3 + 1\<rparr>)"

text \<open>
  \<open>bumpSessionSeq\<close>: an atomic read-modify-write of the store entry; no entry, no bump and the
  result is undefined.
\<close>

definition bumpSessionSeq :: "string \<Rightarrow> int \<Rightarrow> BridgeWorld \<Rightarrow> int option \<times> BridgeWorld" where
  "bumpSessionSeq sessionKey delta w =
     (case sessions w sessionKey of
        None \<Rightarrow> (None, w)
      | Some entry \<Rightarrow>
          (let next = (case lastSyncedSeq entry of None \<Rightarrow> 0 | Some n \<Rightarrow> n) + max 1 delta in
           (Some next,
            w\<lparr>sessions := (sessions w)(sessionKey \<mapsto> entry\<lparr>lastSyncedSeq := Some next\<rparr>)\<rparr>)))"

definition markCommitQueued :: "int \<Rightarrow> string \<Rightarrow> BridgeWorld \<Rightarrow> BridgeWorld" where
  "markCommitQueued now sessionKey w =
     (case sessions w sessionKey of
        None \<Rightarrow> w
      | Some entry \<Rightarrow>
          w\<lparr>sessions := (sessions w)(sessionKey \<mapsto> entry\<lparr>lastCommitAt := Some now\<rparr>)\<rparr>)"

definition resolveLinkedOpenVikingSessionId :: "BridgeWorld \<Rightarrow> BridgeContext option \<Rightarrow> string option" where
  "resolveLinkedOpenVikingSessionId w context =
     (case usableContext context of
        None \<Rightarrow> None
      | Some (ctx, k) \<Rightarrow>
          (case readSessionEntry w (Some k) of
             None \<Rightarrow> None
           | Some entry \<Rightarrow> openvikingSessionId entry))"

text \<open>
  \<open>ensureOpenVikingSessionLink\<close>: an existing non-empty link is returned; otherwise a session is
  created on the store and, when the store entry exists, written back. Every failure is caught
  and gives undefined.
\<close>

definition linkNewSession :: "string \<Rightarrow> BridgeEnv \<Rightarrow> BridgeWorld \<Rightarrow> string option \<times> BridgeWorld" where
  "linkNewSession k env w =
     (let w1 = w\<lparr>issued := issued w @ [CreateSession]\<rparr> in
      case env_createSession env of
        Inl e \<Rightarrow> (None, w1)
      | Inr None \<Rightarrow> (None, w1)
      | Inr (Some sid) \<Rightarrow>
          if trim sid = [] then (None, w1)
          else
            (Some (trim sid),
             case sessions w1 k of
               None \<Rightarrow> w1
             | Some entry \<Rightarrow>
                 w1\<lparr>sessions :=
                      (sessions w1)(k \<mapsto> entry\<lparr>openvikingSessionId := Some (trim sid)\<rparr>)\<rparr>))"

definition ensureOpenVikingSessionLink ::
  "BridgeContext option \<Rightarrow> BridgeEnv \<Rightarrow> BridgeWorld \<Rightarrow> string option \<times> BridgeWorld" where
  "ensureOpenVikingSessionLink context env w =
     (case usableContext context of
        None \<Rightarrow> (None, w)
      | Some (ctx, k) \<Rightarrow>
          (case resolveLinkedOpenVikingSessionId w context of
             None \<Rightarrow> linkNewSession k env w
           | Some existing \<Rightarrow>
               if existing \<noteq> [] then (Some existing, w) else linkNewSession k env w))"

record EnqueueParams =
  ep_cfg :: "ResolvedOpenVikingConfig option"
  ep_sessionKey :: "string option"
  ep_events :: "OpenVikingSessionEvent list"
  ep_bumpSeq :: "bool option"
  ep_skipCommitTriggers :: "bool option"

record CommitParams =
  cp_cfg :: "ResolvedOpenVikingConfig option"
  cp_sessionKey :: "string option"
  cp_cause :: "string option"
  cp_source :: "string option"

text \<open>
  Handing a batch to the outbox, or straight to the store when the outbox is disabled. Either call
  can throw, and the bridge does not catch it.
\<close>

definition deliverEvents ::
  "ResolvedOpenVikingConfig \<Rightarrow> string \<Rightarrow> string \<Rightarrow> OpenVikingSessionEvent list \<Rightarrow> BridgeEnv
     \<Rightarrow> BridgeWorld \<Rightarrow> (error + unit) \<times> BridgeWorld" where
  "deliverEvents resolved sessionKey sessionId events env w =
     (if \<not> outbox_enabled (outbox resolved) then
        (env_addEventsBatch env sessionId events,
         w\<lparr>issued := issued w @ [AddEventsBatch sessionId events]\<rparr>)
      else
        (env_outboxEnqueue env sessionId events,
         w\<lparr>issued := issued w @ [OutboxEnqueue sessionKey sessionId events]\<rparr>))"

text \<open>
  The first half of \<open>enqueueEvents\<close>, up to the sequence bump: \<open>Inr None\<close> is the early
  \<open>return false\<close>, \<open>Inr (Some (context, sessionKey, nextSeq))\<close> goes on to the triggers.
\<close>

definition enqueueAndBump ::
  "EnqueueParams \<Rightarrow> BridgeEnv \<Rightarrow> BridgeWorld
     \<Rightarrow> (error + (BridgeContext \<times> string \<times> int option) option) \<times> BridgeWorld" where
  "enqueueAndBump p env w =
     (case usableContext (resolveContext (ep_cfg p) (ep_sessionKey p)) of
        None \<Rightarrow> (Inr None, w)
      | Some (ctx, k) \<Rightarrow>
          if \<not> dualWrite (ctx_resolved ctx) then (Inr None, w)
          else
            (case ensureOpenVikingSessionLink (Some ctx) env w of
               (None, w1) \<Rightarrow> (Inr None, w1)
             | (Some sessionId, w1) \<Rightarrow>
                 if sessionId = [] then (Inr None, w1)
                 else
                   (case deliverEvents (ctx_resolved ctx) k sessionId (ep_events p) env w1 of
                      (Inl e, w2) \<Rightarrow> (Inl e, w2)
                    | (Inr u, w2) \<Rightarrow>
                        (let w3 = w2\<lparr>stats := recordQueuedEvents (env_now env) (ep_events p) (stats w2)\<rparr> in
                         if ep_bumpSeq p \<noteq> Some False then
                           (case bumpSessionSeq k (int (length (ep_events p))) w3 of
                              (nextSeq, w4) \<Rightarrow> (Inr (Some (ctx, k, nextSeq)), w4))
                         else (Inr (Some (ctx, k, None)), w3)))))"

definition commitEvent :: "string \<Rightarrow> string option \<Rightarrow> string option \<Rightarrow> OpenVikingSessionEvent" where
  "commitEvent uuid cs source =
     \<lparr>event_id = uuid, event_type = ''commit'', role = None, content = None,
      cause = Some (case cs of None \<Rightarrow> ''manual'' | Some c \<Rightarrow> c),
      metadata = (case source of
                    None \<Rightarrow> None
                  | Some s \<Rightarrow> if s = [] then None else Some [(''source'', JStr s)])\<rparr>"

text \<open>\<open>nextSeq && nextSeq % n === 0\<close> on integers.\<close>

definition seqHitsThreshold :: "int option \<Rightarrow> int \<Rightarrow> bool" where
  "seqHitsThreshold nextSeq n =
     (case nextSeq of None \<Rightarrow> False | Some s \<Rightarrow> s \<noteq> 0 \<and> s mod n = 0)"

text \<open>
  \<open>entry?.lastCommitAt && elapsed >= everyNMinutes * 60_000\<close>, with
  \<open>elapsed = Date.now() - (entry?.lastCommitAt ?? 0)\<close>.
\<close>

definition timeThresholdReached :: "SessionEntry option \<Rightarrow> int \<Rightarrow> int \<Rightarrow> bool" where
  "timeThresholdReached entry now minutes =
     (case entry of
        None \<Rightarrow> False
      | Some e \<Rightarrow>
          (case lastCommitAt e of
             None \<Rightarrow> False
           | Some t \<Rightarrow> t \<noteq> 0 \<and> now - t \<ge> minutes * 60000))"

text \<open>
  \<open>enqueueEvents\<close> and \<open>enqueueOpenVikingCommit\<close> call each other: a trigger that fires
  enqueues a commit, and an asynchronous commit is enqueued as an event with
  \<open>skipCommitTriggers\<close> set, which is what ends the recursion.
\<close>

function enqueueEvents ::
    "EnqueueParams \<Rightarrow> BridgeEnv \<Rightarrow> BridgeWorld \<Rightarrow> (error + bool) \<times> BridgeWorld"
  and enqueueOpenVikingCommit ::
    "CommitParams \<Rightarrow> BridgeEnv \<Rightarrow> BridgeWorld \<Rightarrow> (error + bool) \<times> BridgeWorld"
where
  "enqueueEvents p env w =
     (case enqueueAndBump p env w of
        (Inl e, w1) \<Rightarrow> (Inl e, w1)
      | (Inr None, w1) \<Rightarrow> (Inr False, w1)
      | (Inr (Some (ctx, k, nextSeq)), w1) \<Rightarrow>
          if ep_skipCommitTriggers p = Some True then (Inr True, w1)
          else if list_ex (\<lambda>event. event_type event = ''commit'') (ep_events p) then (Inr True, w1)
          else if everyNMessages (triggers (commit (ctx_resolved ctx))) > 0
                  \<and> seqHitsThreshold nextSeq (everyNMessages (triggers (commit (ctx_resolved ctx)))) then
            (case enqueueOpenVikingCommit
                    \<lparr>cp_cfg = ep_cfg p, cp_sessionKey = Some k, cp_cause = Some ''periodic'',
                     cp_source = Some ''message-threshold''\<rparr> env w1 of
               (Inl e, w2) \<Rightarrow> (Inl e, w2)
             | (Inr b, w2) \<Rightarrow> (Inr True, w2))
          else if everyNMinutes (triggers (commit (ctx_resolved ctx))) > 0
                  \<and> timeThresholdReached (readSessionEntry w1 (Some k)) (env_now env)
                        (everyNMinutes (triggers (commit (ctx_resolved ctx)))) then
            (case enqueueOpenVikingCommit
                    \<lparr>cp_cfg = ep_cfg p, cp_sessionKey = Some k, cp_cause = Some ''periodic'',
                     cp_source = Some ''time-threshold''\<rparr> env w1 of
               (Inl e, w2) \<Rightarrow> (Inl e, w2)
             | (Inr b, w2) \<Rightarrow> (Inr True, w2))
          else (Inr True, w1))"
| "enqueueOpenVikingCommit p env w =
     (case usableContext (resolveContext (cp_cfg p) (cp_sessionKey p)) of
        None \<Rightarrow> (Inr False, w)
      | Some (ctx, k) \<Rightarrow>
          if cp_cause p = Some ''session_end'' \<and> \<not> sessionEnd (triggers (commit (ctx_resolved ctx))) then
            (Inr False, w)
          else if cp_cause p = Some ''reset'' \<and> \<not> reset (triggers (commit (ctx_resolved ctx))) then
            (Inr False, w)
          else if mode (commit (ctx_resolved ctx)) = Sync then
            (case ensureOpenVikingSessionLink (Some ctx) env w of
               (None, w1) \<Rightarrow> (Inr False, w1)
             | (Some sessionId, w1) \<Rightarrow>
                 if sessionId = [] then (Inr False, w1)
                 else
                   (let cs = (case cp_cause p of None \<Rightarrow> ''manual'' | Some c \<Rightarrow> c);
                        w2 = w1\<lparr>issued := issued w1 @ [CommitSession sessionId cs]\<rparr> in
                    case env_commitSession env sessionId cs of
                      Inl e \<Rightarrow> (Inl e, w2)
                    | Inr u \<Rightarrow>
                        (Inr True,
                         markCommitQueued (env_now env) k
                           (w2\<lparr>stats :=
                                 recordCommit (env_now env) Sync cs (cp_source p)
                                   ((stats w2)\<lparr>commitEventsQueued := commitEventsQueued (stats w2) + 1\<rparr>)\<rparr>))))
          else
            (case enqueueEvents
                    \<lparr>ep_cfg = cp_cfg p, ep_sessionKey = Some k,
                     ep_events = [commitEvent (env_commit_uuid env) (cp_cause p) (cp_source p)],
                     ep_bumpSeq = Some False, ep_skipCommitTriggers = Some True\<rparr> env w of
               (Inl e, w1) \<Rightarrow> (Inl e, w1)
             | (Inr committed, w1) \<Rightarrow>
                 if committed then
                   (Inr True,
                    markCommitQueued (env_now env) k
                      (w1\<lparr>stats :=
                            recordCommit (env_now env) Async
                              (case cp_cause p of None \<Rightarrow> ''manual'' | Some c \<Rightarrow> c)
                              (cp_source p) (stats w1)\<rparr>))
                 else (Inr False, w1)))"
  by pat_completeness auto
termination
  by (relation "measure (\<lambda>x. case x of
                    Inl (p, env, w) \<Rightarrow> if ep_skipCommitTriggers p = Some True then 0 else 2
                  | Inr (p, env, w) \<Rightarrow> 1)") auto

text \<open>
  \<open>enqueueOpenVikingMessage\<close>: one event with a fresh id; \<open>eventType\<close> defaults to
  \<open>message\<close>.
\<close>

record MessageParams =
  mp_cfg :: "ResolvedOpenVikingConfig option"
  mp_sessionKey :: "string option"
  mp_role :: "string option"
  mp_content :: "string option"
  mp_eventType :: "string option"
  mp_metadata :: "(string \<times> json) list option"

definition messageEvent :: "MessageParams \<Rightarrow> BridgeEnv \<Rightarrow> OpenVikingSessionEvent" where
  "messageEvent p env =
     \<lparr>event_id = env_event_uuid env,
      event_type = (case mp_eventType p of None \<Rightarrow> ''message'' | Some t \<Rightarrow> t),
      role = Some (normalizeRole (mp_role p)),
      content = Some (normalizeEventContent (mp_content p)),
      cause = None,
      metadata = mp_metadata p\<rparr>"

definition enqueueOpenVikingMessage ::
  "MessageParams \<Rightarrow> BridgeEnv \<Rightarrow> BridgeWorld \<Rightarrow> (error + bool) \<times> BridgeWorld" where
  "enqueueOpenVikingMessage p env w =
     (if normalizeEventContent (mp_content p) = [] then (Inr False, w)
      else
        enqueueEvents
          \<lparr>ep_cfg = mp_cfg p, ep_sessionKey = mp_sessionKey p, ep_events = [messageEvent p env],
           ep_bumpSeq = None, ep_skipCommitTriggers = None\<rparr> env w)"

subsection \<open>What a run of the bridge leaves behind\<close>

fun batchOf :: "effect \<Rightarrow> OpenVikingSessionEvent list" where
  "batchOf (OutboxEnqueue sessionKey sessionId events) = events"
| "batchOf (AddEventsBatch sessionId events) = events"
| "batchOf _ = []"

definition queuedEvents :: "effect list \<Rightarrow> OpenVikingSessionEvent list" where
  "queuedEvents effects = concat (map batchOf effects)"

fun commitCallOf :: "effect \<Rightarrow> (string \<times> string) list" where
  "commitCallOf (CommitSession sessionId cs) = [(sessionId, cs)]"
| "commitCallOf _ = []"

definition commitCalls :: "effect list \<Rightarrow> (string \<times> string) list" where
  "commitCalls effects = concat (map commitCallOf effects)"

definition commitEvents :: "OpenVikingSessionEvent list \<Rightarrow> OpenVikingSessionEvent list" where
  "commitEvents events = filter (\<lambda>event. event_type event = ''commit'') events"

definition seq0 :: "SessionEntry \<Rightarrow> int" where
  "seq0 entry = (case lastSyncedSeq entry of None \<Rightarrow> 0 | Some n \<Rightarrow> n)"

definition messageCommit :: "BridgeEnv \<Rightarrow> OpenVikingSessionEvent" where
  "messageCommit env =
     commitEvent (env_commit_uuid env) (Some ''periodic'') (Some ''message-threshold'')"

fun enqueueAll ::
  "(MessageParams \<times> BridgeEnv) list \<Rightarrow> BridgeWorld \<Rightarrow> (error + bool) list \<times> BridgeWorld" where
  "enqueueAll [] w = ([], w)"
| "enqueueAll ((p, env) # calls) w =
     (case enqueueOpenVikingMessage p env w of
        (r, w1) \<Rightarrow> (case enqueueAll calls w1 of (rs, w2) \<Rightarrow> (r # rs, w2)))"

definition isMessageThresholdCommit :: "OpenVikingSessionEvent \<Rightarrow> bool" where
  "isMessageThresholdCommit event =
     (event_type event = ''commit'' \<and> cause event = Some ''periodic''
      \<and> metadata event = Some [(''source'', JStr ''message-threshold'')])"

definition sameSession :: "ResolvedOpenVikingConfig \<Rightarrow> string \<Rightarrow> MessageParams \<times> BridgeEnv \<Rightarrow> bool" where
  "sameSession rc k call =
     (mp_cfg (fst call) = Some rc \<and> map_option trim (mp_sessionKey (fst call)) = Some k
      \<and> mp_eventType (fst call) \<noteq> Some ''commit'')"

definition issuedSince :: "BridgeWorld \<Rightarrow> BridgeWorld \<Rightarrow> effect list" where
  "issuedSince w w' = drop (length (issued w)) (issued w')"

definition exampleEnv :: BridgeEnv where
  "exampleEnv =
     \<lparr>env_now = 1000, env_event_uuid = ''e'', env_commit_uuid = ''c'',
      env_createSession = Inr (Some ''ov-1''),
      env_outboxEnqueue = (\<lambda>sessionId events. Inr ()),
      env_addEventsBatch = (\<lambda>sessionId events. Inr ()),
      env_commitSession = (\<lambda>sessionId cs. Inr ())\<rparr>"

definition exampleWorld :: BridgeWorld where
  "exampleWorld =
     \<lparr>sessions = [''main'' \<mapsto> \<lparr>openvikingSessionId = None, lastSyncedSeq = None, lastCommitAt = None\<rparr>],
      stats = createInitialBridgeStats, issued = []\<rparr>"

definition exampleMessage :: "OpenVikingCommitMode \<Rightarrow> int \<Rightarrow> string \<Rightarrow> MessageParams" where
  "exampleMessage m n r =
     \<lparr>mp_cfg = Some (exampleConfig m n), mp_sessionKey = Some ''main'', mp_role = Some r,
      mp_content = Some ''hi'', mp_eventType = None, mp_metadata = None\<rparr>"

definition exampleCalls :: "OpenVikingCommitMode \<Rightarrow> int \<Rightarrow> (MessageParams \<times> BridgeEnv) list" where
  "exampleCalls m n =
     [(exampleMessage m n ''user'', exampleEnv), (exampleMessage m n ''assistant'', exampleEnv)]"

text \<open>
  An outside that takes everything: no outbox or store call throws, and \<open>createSession\<close>
  returns a session id that is not blank.
\<close>

definition nothingThrows :: "BridgeEnv \<Rightarrow> bool" where
  "nothingThrows env =
     ((\<forall>sessionId events. env_outboxEnqueue env sessionId events = Inr ())
      \<and> (\<forall>sessionId events. env_addEventsBatch env sessionId events = Inr ())
      \<and> (\<forall>sessionId cs. env_commitSession env sessionId cs = Inr ()))"

definition sessionCreated :: "BridgeEnv \<Rightarrow> bool" where
  "sessionCreated env =
     (case env_createSession env of Inr (Some sid) \<Rightarrow> trim sid \<noteq> [] | _ \<Rightarrow> False)"

subsection \<open>Properties of the bridge\<close>

declare enqueueEvents.simps [simp del] enqueueOpenVikingCommit.simps [simp del]

lemma enqueueEvents_skip:
  "ep_skipCommitTriggers p = Some True \<Longrightarrow>
     enqueueEvents p env w =
       (case enqueueAndBump p env w of
          (Inl e, w1) \<Rightarrow> (Inl e, w1)
        | (Inr None, w1) \<Rightarrow> (Inr False, w1)
        | (Inr (Some x), w1) \<Rightarrow> (Inr True, w1))"
  by (simp add: enqueueEvents.simps split: prod.splits sum.splits option.splits)

lemma queuedEvents_simps [simp]:
  "queuedEvents [] = []"
  "queuedEvents (x # xs) = batchOf x @ queuedEvents xs"
  "queuedEvents (xs @ ys) = queuedEvents xs @ queuedEvents ys"
  by (simp_all add: queuedEvents_def)

lemma linkNewSession_issued:
  "linkNewSession k env w = (r, w') \<Longrightarrow> issued w' = issued w @ [CreateSession]"
  by (auto simp: linkNewSession_def Let_def split: sum.splits option.splits if_splits)

lemma ensure_issued:
  "ensureOpenVikingSessionLink c env w = (r, w') \<Longrightarrow>
     issued w' = issued w \<or> issued w' = issued w @ [CreateSession]"
  by (auto simp: ensureOpenVikingSessionLink_def split: option.splits if_splits dest: linkNewSession_issued)

lemma deliver_issued:
  "deliverEvents resolved k sid evs env w = (r, w') \<Longrightarrow>
     \<exists>x. issued w' = issued w @ [x] \<and> batchOf x = evs"
  by (auto simp: deliverEvents_def split: if_splits)

lemma bump_issued: "bumpSessionSeq k d w = (r, w') \<Longrightarrow> issued w' = issued w"
  by (auto simp: bumpSessionSeq_def Let_def split: option.splits)

lemma mark_issued [simp]: "issued (markCommitQueued now k w) = issued w"
  by (auto simp: markCommitQueued_def split: option.splits)

lemma enqueueAndBump_issued:
  assumes "enqueueAndBump p env w = (r, w')"
  shows "\<exists>new. issued w' = issued w @ new \<and>
           (queuedEvents new = [] \<or> (queuedEvents new = ep_events p \<and> r \<noteq> Inr None))"
  using assms
  apply (simp add: enqueueAndBump_def Let_def split: option.splits if_splits prod.splits sum.splits)
  apply (auto dest!: ensure_issued deliver_issued bump_issued)
  done

lemma enqueueEvents_skip_issued:
  assumes "enqueueEvents p env w = (r, w')" "ep_skipCommitTriggers p = Some True"
  shows "\<exists>new. issued w' = issued w @ new \<and>
           (queuedEvents new = [] \<or> (queuedEvents new = ep_events p \<and> r \<noteq> Inr False))"
  using assms enqueueAndBump_issued[of p env w]
  by (auto simp: enqueueEvents_skip split: prod.splits sum.splits option.splits)

lemma commit_issued:
  assumes "enqueueOpenVikingCommit p env w = (r, w')"
  shows "\<exists>new. issued w' = issued w @ new \<and>
           (queuedEvents new = [] \<or>
            queuedEvents new = [commitEvent (env_commit_uuid env) (cp_cause p) (cp_source p)])"
proof (cases "usableContext (resolveContext (cp_cfg p) (cp_sessionKey p))")
  case None
  with assms show ?thesis by (simp add: enqueueOpenVikingCommit.simps)
next
  case (Some a)
  obtain ctx k where a: "a = (ctx, k)" by (cases a)
  show ?thesis
  proof (cases "mode (commit (ctx_resolved ctx)) = Sync")
    case True
    with assms Some a show ?thesis
      by (auto simp: enqueueOpenVikingCommit.simps Let_def
               split: if_splits prod.splits option.splits sum.splits
               dest!: ensure_issued)
  next
    case False
    let ?q = "\<lparr>ep_cfg = cp_cfg p, ep_sessionKey = Some k,
               ep_events = [commitEvent (env_commit_uuid env) (cp_cause p) (cp_source p)],
               ep_bumpSeq = Some False, ep_skipCommitTriggers = Some True\<rparr>"
    obtain r1 w1 where e: "enqueueEvents ?q env w = (r1, w1)" by (cases "enqueueEvents ?q env w")
    from enqueueEvents_skip_issued[OF e] obtain new where
      n: "issued w1 = issued w @ new"
         "queuedEvents new = [] \<or> queuedEvents new = [commitEvent (env_commit_uuid env) (cp_cause p) (cp_source p)]"
      by auto
    from assms Some a False e have "issued w' = issued w \<or> issued w' = issued w1"
      by (auto simp: enqueueOpenVikingCommit.simps split: if_splits sum.splits)
    with n show ?thesis by auto
  qed
qed

lemma usable_key: "usableContext c = Some (ctx, k) \<Longrightarrow> k \<noteq> [] \<and> c = Some ctx \<and> ctx_sessionKey ctx = Some k"
  by (cases c) (auto split: option.splits if_splits)

lemma commitCalls_simps [simp]:
  "commitCalls [] = []"
  "commitCalls (x # xs) = commitCallOf x @ commitCalls xs"
  "commitCalls (xs @ ys) = commitCalls xs @ commitCalls ys"
  by (simp_all add: commitCalls_def)

lemma readSessionEntry_trimmed:
  "trim k = k \<Longrightarrow> k \<noteq> [] \<Longrightarrow> readSessionEntry w (Some k) = sessions w k"
  by (simp add: readSessionEntry_def)

lemma linkNewSession_entry:
  assumes "linkNewSession k env w = (Some sid, w1)" "sessions w k = Some entry"
  shows "sid \<noteq> [] \<and> sessions w1 k = Some (entry\<lparr>openvikingSessionId := Some sid\<rparr>)
         \<and> stats w1 = stats w \<and> issued w1 = issued w @ [CreateSession]"
  using assms
  by (auto simp: linkNewSession_def Let_def split: sum.splits option.splits if_splits)

lemma ensure_entry:
  assumes "ensureOpenVikingSessionLink (Some ctx) env w = (Some sid, w1)"
    and "ctx_sessionKey ctx = Some k" "trim k = k" "k \<noteq> []"
    and "sessions w k = Some entry"
  shows "sid \<noteq> [] \<and> sessions w1 k = Some (entry\<lparr>openvikingSessionId := Some sid\<rparr>)
         \<and> stats w1 = stats w
         \<and> (issued w1 = issued w \<or> issued w1 = issued w @ [CreateSession])"
  using assms
  by (auto simp: ensureOpenVikingSessionLink_def resolveLinkedOpenVikingSessionId_def
        readSessionEntry_trimmed
      split: option.splits if_splits dest: linkNewSession_entry)

lemma ensure_existing:
  assumes "ctx_sessionKey ctx = Some k" "trim k = k" "k \<noteq> []"
    and "sessions w k = Some entry" "openvikingSessionId entry = Some sid" "sid \<noteq> []"
  shows "ensureOpenVikingSessionLink (Some ctx) env w = (Some sid, w)"
  using assms
  by (auto simp: ensureOpenVikingSessionLink_def resolveLinkedOpenVikingSessionId_def
        readSessionEntry_trimmed)

lemma deliver_facts:
  assumes "deliverEvents resolved k sid evs env w = (r, w')"
  shows "sessions w' = sessions w \<and> stats w' = stats w
         \<and> (\<exists>x. issued w' = issued w @ [x] \<and> batchOf x = evs \<and> commitCallOf x = [])"
  using assms by (auto simp: deliverEvents_def split: if_splits)

lemma enqueueAndBump_ok:
  assumes r: "enqueueAndBump p env w = (Inr (Some x), w')"
    and c: "usableContext (resolveContext (ep_cfg p) (ep_sessionKey p)) = Some (ctx, k)"
    and k: "trim k = k"
    and e: "sessions w k = Some entry"
  shows "\<exists>sid pre eff. sid \<noteq> [] \<and> dualWrite (ctx_resolved ctx) \<and>
    x = (ctx, k, if ep_bumpSeq p \<noteq> Some False
                 then Some (seq0 entry + max 1 (int (length (ep_events p)))) else None) \<and>
    sessions w' k =
      Some (if ep_bumpSeq p \<noteq> Some False
            then entry\<lparr>openvikingSessionId := Some sid,
                       lastSyncedSeq := Some (seq0 entry + max 1 (int (length (ep_events p))))\<rparr>
            else entry\<lparr>openvikingSessionId := Some sid\<rparr>) \<and>
    stats w' = recordQueuedEvents (env_now env) (ep_events p) (stats w) \<and>
    issued w' = issued w @ pre @ [eff] \<and> (pre = [] \<or> pre = [CreateSession]) \<and>
    batchOf eff = ep_events p \<and> commitCallOf eff = []"
proof -
  from c have kk: "k \<noteq> []" "ctx_sessionKey ctx = Some k" using usable_key by blast+
  from r c have dw: "dualWrite (ctx_resolved ctx)"
    by (auto simp: enqueueAndBump_def split: if_splits)
  obtain l w1 where en: "ensureOpenVikingSessionLink (Some ctx) env w = (l, w1)"
    by (cases "ensureOpenVikingSessionLink (Some ctx) env w")
  with r c dw obtain sid where l: "l = Some sid" "sid \<noteq> []"
    by (auto simp: enqueueAndBump_def split: if_splits option.splits)
  from ensure_entry[OF en[unfolded l(1)] kk(2) k kk(1) e]
  have w1: "sessions w1 k = Some (entry\<lparr>openvikingSessionId := Some sid\<rparr>)"
    "stats w1 = stats w" "issued w1 = issued w \<or> issued w1 = issued w @ [CreateSession]"
    by auto
  obtain d w2 where de: "deliverEvents (ctx_resolved ctx) k sid (ep_events p) env w1 = (d, w2)"
    by (cases "deliverEvents (ctx_resolved ctx) k sid (ep_events p) env w1")
  from deliver_facts[OF de] obtain eff where
    w2: "sessions w2 = sessions w1" "stats w2 = stats w1" "issued w2 = issued w1 @ [eff]"
      "batchOf eff = ep_events p" "commitCallOf eff = []"
    by auto
  from r c dw en l de obtain u where d: "d = Inr u"
    by (auto simp: enqueueAndBump_def split: if_splits sum.splits)
  let ?w3 = "w2\<lparr>stats := recordQueuedEvents (env_now env) (ep_events p) (stats w2)\<rparr>"
  show ?thesis
  proof (cases "ep_bumpSeq p \<noteq> Some False")
    case True
    with r c dw en l de d w1 w2 show ?thesis
      by (auto simp: enqueueAndBump_def Let_def bumpSessionSeq_def seq0_def split: option.splits)
  next
    case False
    with r c dw en l de d have "x = (ctx, k, None)" "w' = ?w3"
      by (simp_all add: enqueueAndBump_def Let_def)
    with w1 w2 False l dw show ?thesis by auto
  qed
qed

lemma usable_resolve:
  "trim k = k \<Longrightarrow> k \<noteq> [] \<Longrightarrow>
     usableContext (resolveContext (Some rc) (Some k)) =
       Some (\<lparr>ctx_resolved = rc, ctx_sessionKey = Some k\<rparr>, k)"
  by (simp add: resolveContext_def)

lemma usable_resolve_inv:
  "usableContext (resolveContext cfg sk) = Some (ctx, k) \<Longrightarrow>
     \<exists>rc s. cfg = Some rc \<and> sk = Some s \<and> k = trim s \<and> k \<noteq> []
        \<and> ctx = \<lparr>ctx_resolved = rc, ctx_sessionKey = Some k\<rparr>"
  by (auto simp: resolveContext_def split: option.splits if_splits)

lemma enqueueAndBump_linked:
  assumes "usableContext (resolveContext (ep_cfg p) (ep_sessionKey p)) = Some (ctx, k)"
    and "dualWrite (ctx_resolved ctx)"
    and "ensureOpenVikingSessionLink (Some ctx) env w = (Some sid, w)" "sid \<noteq> []"
    and "ep_bumpSeq p = Some False"
  shows "enqueueAndBump p env w =
     (case deliverEvents (ctx_resolved ctx) k sid (ep_events p) env w of
        (Inl e, w2) \<Rightarrow> (Inl e, w2)
      | (Inr u, w2) \<Rightarrow>
          (Inr (Some (ctx, k, None)),
           w2\<lparr>stats := recordQueuedEvents (env_now env) (ep_events p) (stats w2)\<rparr>))"
  using assms by (simp add: enqueueAndBump_def Let_def split: prod.splits sum.splits)

text \<open>A periodic commit on a linked session, when nothing throws.\<close>

lemma commit_periodic_ok:
  assumes r: "enqueueOpenVikingCommit
                \<lparr>cp_cfg = Some rc, cp_sessionKey = Some k, cp_cause = Some ''periodic'',
                 cp_source = Some src\<rparr> env w = (Inr b, w')"
    and k: "trim k = k" "k \<noteq> []"
    and dw: "dualWrite rc"
    and e: "sessions w k = Some entry" "openvikingSessionId entry = Some sid" "sid \<noteq> []"
  shows "sessions w' k = Some (entry\<lparr>lastCommitAt := Some (env_now env)\<rparr>) \<and>
    (\<exists>eff. issued w' = issued w @ [eff] \<and>
       (if mode (commit rc) = Sync
        then eff = CommitSession sid ''periodic'' \<and>
             stats w' = recordCommit (env_now env) Sync ''periodic'' (Some src)
                          ((stats w)\<lparr>commitEventsQueued := commitEventsQueued (stats w) + 1\<rparr>)
        else batchOf eff = [commitEvent (env_commit_uuid env) (Some ''periodic'') (Some src)] \<and>
             commitCallOf eff = [] \<and>
             stats w' = recordCommit (env_now env) Async ''periodic'' (Some src)
                          (recordQueuedEvents (env_now env)
                             [commitEvent (env_commit_uuid env) (Some ''periodic'') (Some src)]
                             (stats w))))"
proof -
  let ?ctx = "\<lparr>ctx_resolved = rc, ctx_sessionKey = Some k\<rparr>"
  have u: "usableContext (resolveContext (Some rc) (Some k)) = Some (?ctx, k)"
    using k by (rule usable_resolve)
  have en: "ensureOpenVikingSessionLink (Some ?ctx) env w = (Some sid, w)"
    using k e by (intro ensure_existing) auto
  show ?thesis
  proof (cases "mode (commit rc) = Sync")
    case True
    with r u en e show ?thesis
      by (auto simp: enqueueOpenVikingCommit.simps Let_def markCommitQueued_def split: sum.splits)
  next
    case False
    let ?cev = "commitEvent (env_commit_uuid env) (Some ''periodic'') (Some src)"
    let ?q = "\<lparr>ep_cfg = Some rc, ep_sessionKey = Some k, ep_events = [?cev],
               ep_bumpSeq = Some False, ep_skipCommitTriggers = Some True\<rparr>"
    obtain d w2 where de: "deliverEvents rc k sid [?cev] env w = (d, w2)"
      by (cases "deliverEvents rc k sid [?cev] env w")
    have ab: "enqueueAndBump ?q env w =
       (case d of Inl e \<Rightarrow> (Inl e, w2)
        | Inr u \<Rightarrow> (Inr (Some (?ctx, k, None)),
             w2\<lparr>stats := recordQueuedEvents (env_now env) [?cev] (stats w2)\<rparr>))"
      using enqueueAndBump_linked[of ?q ?ctx k env w sid] u dw en e(3) de
      by (simp split: sum.splits)
    from deliver_facts[OF de] obtain eff where
      w2: "sessions w2 = sessions w" "stats w2 = stats w" "issued w2 = issued w @ [eff]"
        "batchOf eff = [?cev]" "commitCallOf eff = []"
      by auto
    from r u False ab w2 e show ?thesis
      by (cases d) (auto simp: enqueueOpenVikingCommit.simps enqueueEvents_skip markCommitQueued_def)
  qed
qed

lemma recordQueuedEvents_single:
  "commitEventsQueued (recordQueuedEvents now [ev] st) =
     commitEventsQueued st + (if event_type ev = ''commit'' then 1 else 0)"
  "periodicCommitsByMessage (recordQueuedEvents now [ev] st) = periodicCommitsByMessage st"
  "periodicCommitsByTime (recordQueuedEvents now [ev] st) = periodicCommitsByTime st"
  by (simp_all add: recordQueuedEvents_def recordQueuedEvent_def Let_def)

lemma recordCommit_message_threshold:
  "commitEventsQueued (recordCommit now m ''periodic'' (Some ''message-threshold'') st) = commitEventsQueued st"
  "periodicCommitsByMessage (recordCommit now m ''periodic'' (Some ''message-threshold'') st) =
     periodicCommitsByMessage st + 1"
  "periodicCommitsByTime (recordCommit now m ''periodic'' (Some ''message-threshold'') st) =
     periodicCommitsByTime st"
  by (simp_all add: recordCommit_def Let_def split: option.splits)

lemma recordCommit_time_threshold:
  "commitEventsQueued (recordCommit now m ''periodic'' (Some ''time-threshold'') st) = commitEventsQueued st"
  "periodicCommitsByMessage (recordCommit now m ''periodic'' (Some ''time-threshold'') st) =
     periodicCommitsByMessage st"
  "periodicCommitsByTime (recordCommit now m ''periodic'' (Some ''time-threshold'') st) =
     periodicCommitsByTime st + 1"
  by (simp_all add: recordCommit_def Let_def split: option.splits)

lemma commitEvent_type [simp]: "event_type (commitEvent u c s) = ''commit''"
  by (simp add: commitEvent_def)

lemma message_step:
  assumes r: "enqueueOpenVikingMessage p env w = (Inr True, w')"
    and cfg: "mp_cfg p = Some rc"
    and key: "map_option trim (mp_sessionKey p) = Some k"
    and ty: "mp_eventType p \<noteq> Some ''commit''"
    and N: "0 < everyNMessages (triggers (commit rc))"
    and e: "sessions w k = Some entry"
  shows "\<exists>entry' new. sessions w' k = Some entry' \<and> seq0 entry' = seq0 entry + 1 \<and>
     issued w' = issued w @ new \<and>
     periodicCommitsByTime (stats w) \<le> periodicCommitsByTime (stats w') \<and>
     (if seq0 entry + 1 \<noteq> 0 \<and> (seq0 entry + 1) mod everyNMessages (triggers (commit rc)) = 0
      then periodicCommitsByMessage (stats w') = periodicCommitsByMessage (stats w) + 1 \<and>
           periodicCommitsByTime (stats w') = periodicCommitsByTime (stats w) \<and>
           commitEventsQueued (stats w') = commitEventsQueued (stats w) + 1 \<and>
           (if mode (commit rc) = Sync
            then commitEvents (queuedEvents new) = [] \<and> map snd (commitCalls new) = [''periodic'']
            else commitEvents (queuedEvents new) = [messageCommit env] \<and> commitCalls new = [])
      else periodicCommitsByMessage (stats w') = periodicCommitsByMessage (stats w) \<and>
           commitEventsQueued (stats w') + periodicCommitsByTime (stats w) =
             commitEventsQueued (stats w) + periodicCommitsByTime (stats w') \<and>
           (periodicCommitsByTime (stats w') = periodicCommitsByTime (stats w) \<longrightarrow>
              commitEvents (queuedEvents new) = [] \<and> commitCalls new = []))"
proof -
  let ?ev = "messageEvent p env"
  let ?q = "\<lparr>ep_cfg = mp_cfg p, ep_sessionKey = mp_sessionKey p, ep_events = [?ev],
             ep_bumpSeq = None, ep_skipCommitTriggers = None\<rparr>"
  let ?N = "everyNMessages (triggers (commit rc))"
  let ?M = "everyNMinutes (triggers (commit rc))"
  from r have q: "enqueueEvents ?q env w = (Inr True, w')"
    by (auto simp: enqueueOpenVikingMessage_def split: if_splits)
  obtain a w1 where ab: "enqueueAndBump ?q env w = (a, w1)" by (cases "enqueueAndBump ?q env w")
  from q ab obtain x where a: "a = Inr (Some x)"
    by (auto simp: enqueueEvents.simps[of ?q] split: sum.splits option.splits)
  from ab a obtain ctx k' where u0: "usableContext (resolveContext (ep_cfg ?q) (ep_sessionKey ?q)) = Some (ctx, k')"
    by (auto simp: enqueueAndBump_def split: option.splits)
  from usable_resolve_inv[OF u0] cfg key
  have ck: "k' = k" "k \<noteq> []" "trim k = k" "ctx = \<lparr>ctx_resolved = rc, ctx_sessionKey = Some k\<rparr>"
    by auto
  note u = u0[unfolded ck(1)]
  from enqueueAndBump_ok[OF ab[unfolded a] u ck(3) e]
  obtain sid pre eff where f:
    "sid \<noteq> []" "dualWrite (ctx_resolved ctx)"
    "x = (ctx, k, Some (seq0 entry + 1))"
    "sessions w1 k = Some (entry\<lparr>openvikingSessionId := Some sid, lastSyncedSeq := Some (seq0 entry + 1)\<rparr>)"
    "stats w1 = recordQueuedEvents (env_now env) [?ev] (stats w)"
    "issued w1 = issued w @ pre @ [eff]" "pre = [] \<or> pre = [CreateSession]"
    "batchOf eff = [?ev]" "commitCallOf eff = []"
    by auto
  let ?e1 = "entry\<lparr>openvikingSessionId := Some sid, lastSyncedSeq := Some (seq0 entry + 1)\<rparr>"
  have ety: "event_type ?ev \<noteq> ''commit''"
    using ty by (auto simp: messageEvent_def split: option.splits)
  have pre: "queuedEvents pre = []" "commitCalls pre = []" using f(7) by auto
  have s1: "commitEventsQueued (stats w1) = commitEventsQueued (stats w)"
    "periodicCommitsByMessage (stats w1) = periodicCommitsByMessage (stats w)"
    "periodicCommitsByTime (stats w1) = periodicCommitsByTime (stats w)"
    using ety by (simp_all add: f(5) recordQueuedEvents_single)
  have new1: "commitEvents (queuedEvents (pre @ [eff])) = []" "commitCalls (pre @ [eff]) = []"
    using pre f(8,9) ety by (simp_all add: commitEvents_def)
  have seq1: "seq0 ?e1 = seq0 entry + 1" by (simp add: seq0_def)
  have dw: "dualWrite rc" using f(2) ck(4) by simp
  let ?fire = "seq0 entry + 1 \<noteq> 0 \<and> (seq0 entry + 1) mod ?N = 0"
  let ?time = "0 < ?M \<and> timeThresholdReached (readSessionEntry w1 (Some k)) (env_now env) ?M"
  let ?c = "\<lambda>src. \<lparr>cp_cfg = Some rc, cp_sessionKey = Some k, cp_cause = Some ''periodic'',
                  cp_source = Some src\<rparr>"
  have "enqueueEvents ?q env w =
              (if ?fire then
                 (case enqueueOpenVikingCommit (?c ''message-threshold'') env w1 of
                    (Inl e, w2) \<Rightarrow> (Inl e, w2) | (Inr b, w2) \<Rightarrow> (Inr True, w2))
               else if ?time then
                 (case enqueueOpenVikingCommit (?c ''time-threshold'') env w1 of
                    (Inl e, w2) \<Rightarrow> (Inl e, w2) | (Inr b, w2) \<Rightarrow> (Inr True, w2))
               else (Inr True, w1))"
    unfolding enqueueEvents.simps[of ?q] ab a f(3)
    using ety ck(4) cfg N by (simp add: seqHitsThreshold_def)
  with q
  have body: "(if ?fire then
                 (case enqueueOpenVikingCommit (?c ''message-threshold'') env w1 of
                    (Inl e, w2) \<Rightarrow> (Inl e, w2) | (Inr b, w2) \<Rightarrow> (Inr True, w2))
               else if ?time then
                 (case enqueueOpenVikingCommit (?c ''time-threshold'') env w1 of
                    (Inl e, w2) \<Rightarrow> (Inl e, w2) | (Inr b, w2) \<Rightarrow> (Inr True, w2))
               else (Inr True, w1)) = (Inr True, w')"
    by simp
  have commit: "\<And>src b. enqueueOpenVikingCommit (?c src) env w1 = (Inr b, w') \<Longrightarrow>
      sessions w' k = Some (?e1\<lparr>lastCommitAt := Some (env_now env)\<rparr>) \<and>
      (\<exists>eff2. issued w' = issued w1 @ [eff2] \<and>
         (if mode (commit rc) = Sync
          then eff2 = CommitSession sid ''periodic'' \<and>
               stats w' = recordCommit (env_now env) Sync ''periodic'' (Some src)
                            ((stats w1)\<lparr>commitEventsQueued := commitEventsQueued (stats w1) + 1\<rparr>)
          else batchOf eff2 = [commitEvent (env_commit_uuid env) (Some ''periodic'') (Some src)] \<and>
               commitCallOf eff2 = [] \<and>
               stats w' = recordCommit (env_now env) Async ''periodic'' (Some src)
                            (recordQueuedEvents (env_now env)
                               [commitEvent (env_commit_uuid env) (Some ''periodic'') (Some src)]
                               (stats w1))))"
    by (rule commit_periodic_ok[where sid = sid]) (use ck dw f in auto)
  show ?thesis
  proof (cases ?fire)
    case True
    with body obtain b where
      c: "enqueueOpenVikingCommit (?c ''message-threshold'') env w1 = (Inr b, w')"
      by (auto split: prod.splits sum.splits)
    from commit[OF c] obtain eff2 where g:
      "sessions w' k = Some (?e1\<lparr>lastCommitAt := Some (env_now env)\<rparr>)"
      "issued w' = issued w1 @ [eff2]"
      "if mode (commit rc) = Sync
          then eff2 = CommitSession sid ''periodic'' \<and>
               stats w' = recordCommit (env_now env) Sync ''periodic'' (Some ''message-threshold'')
                            ((stats w1)\<lparr>commitEventsQueued := commitEventsQueued (stats w1) + 1\<rparr>)
          else batchOf eff2 = [messageCommit env] \<and>
               commitCallOf eff2 = [] \<and>
               stats w' = recordCommit (env_now env) Async ''periodic'' (Some ''message-threshold'')
                            (recordQueuedEvents (env_now env) [messageCommit env] (stats w1))"
      unfolding messageCommit_def by blast
    have i: "issued w' = issued w @ (pre @ [eff, eff2])" using g(2) f(6) by simp
    have sq: "seq0 (?e1\<lparr>lastCommitAt := Some (env_now env)\<rparr>) = seq0 entry + 1"
      by (simp add: seq0_def)
    show ?thesis
    proof (cases "mode (commit rc) = Sync")
      case s: True
      with g(3) have st: "eff2 = CommitSession sid ''periodic''"
        "stats w' = recordCommit (env_now env) Sync ''periodic'' (Some ''message-threshold'')
                            ((stats w1)\<lparr>commitEventsQueued := commitEventsQueued (stats w1) + 1\<rparr>)"
        by simp_all
      show ?thesis
        apply (rule exI[of _ "?e1\<lparr>lastCommitAt := Some (env_now env)\<rparr>"])
        apply (rule exI[of _ "pre @ [eff, eff2]"])
        using True s g(1) i sq st s1 pre f(8,9) ety
        by (simp add: recordCommit_message_threshold commitEvents_def)
    next
      case s: False
      with g(3) have st: "batchOf eff2 = [messageCommit env]" "commitCallOf eff2 = []"
        "stats w' = recordCommit (env_now env) Async ''periodic'' (Some ''message-threshold'')
                            (recordQueuedEvents (env_now env) [messageCommit env] (stats w1))"
        by simp_all
      show ?thesis
        apply (rule exI[of _ "?e1\<lparr>lastCommitAt := Some (env_now env)\<rparr>"])
        apply (rule exI[of _ "pre @ [eff, eff2]"])
        using True s g(1) i sq st s1 pre f(8,9) ety
        by (simp add: recordCommit_message_threshold recordQueuedEvents_single commitEvents_def
              messageCommit_def)
    qed
  next
    case nf: False
    show ?thesis
    proof (cases ?time)
      case True
      with body nf obtain b where
        c: "enqueueOpenVikingCommit (?c ''time-threshold'') env w1 = (Inr b, w')"
        by (auto split: prod.splits sum.splits)
      from commit[OF c] obtain eff2 where g:
        "sessions w' k = Some (?e1\<lparr>lastCommitAt := Some (env_now env)\<rparr>)"
        "issued w' = issued w1 @ [eff2]"
        "if mode (commit rc) = Sync
          then stats w' = recordCommit (env_now env) Sync ''periodic'' (Some ''time-threshold'')
                            ((stats w1)\<lparr>commitEventsQueued := commitEventsQueued (stats w1) + 1\<rparr>)
          else stats w' = recordCommit (env_now env) Async ''periodic'' (Some ''time-threshold'')
                            (recordQueuedEvents (env_now env)
                               [commitEvent (env_commit_uuid env) (Some ''periodic'') (Some ''time-threshold'')]
                               (stats w1))"
        by (auto split: if_splits)
      have i: "issued w' = issued w @ (pre @ [eff, eff2])" using g(2) f(6) by simp
      have sq: "seq0 (?e1\<lparr>lastCommitAt := Some (env_now env)\<rparr>) = seq0 entry + 1"
        by (simp add: seq0_def)
      show ?thesis
        apply (rule exI[of _ "?e1\<lparr>lastCommitAt := Some (env_now env)\<rparr>"])
        apply (rule exI[of _ "pre @ [eff, eff2]"])
        using nf g i sq s1
        by (auto simp: recordCommit_time_threshold recordQueuedEvents_single split: if_splits)
    next
      case False
      with body nf have w': "w' = w1" by (auto split: if_splits)
      show ?thesis
        apply (rule exI[of _ ?e1])
        apply (rule exI[of _ "pre @ [eff]"])
        using nf w' f(4,6) seq1 s1 new1
        by auto
    qed
  qed
qed

lemma messageCommit_is [simp]: "isMessageThresholdCommit (messageCommit env)"
  by (simp add: isMessageThresholdCommit_def messageCommit_def commitEvent_def)

lemma commitEvents_append [simp]: "commitEvents (xs @ ys) = commitEvents xs @ commitEvents ys"
  by (simp add: commitEvents_def)

lemma div_step:
  fixes s n :: int
  assumes "0 < n"
  shows "(s + 1) div n = s div n + (if (s + 1) mod n = 0 then 1 else 0)"
proof (cases "(s + 1) mod n = 0")
  case True
  then obtain q where q: "s + 1 = n * q" by (metis mod_eq_0_iff_dvd dvd_def)
  then have s: "s = n * (q - 1) + (n - 1)" by (simp add: algebra_simps)
  have "s div n = q - 1"
    using assms by (subst s) (simp add: div_pos_pos_trivial)
  moreover have "(s + 1) div n = q" using assms q by simp
  ultimately show ?thesis using True by simp
next
  case False
  have m: "s mod n + 1 < n"
  proof (rule ccontr)
    assume "\<not> s mod n + 1 < n"
    moreover have "s mod n < n" using assms by simp
    ultimately have "s mod n = n - 1" by simp
    then have "(s + 1) mod n = 0"
      by (metis add.commute diff_add_cancel mod_add_left_eq mod_self)
    with False show False by simp
  qed
  have "s + 1 = n * (s div n) + (s mod n + 1)" by simp
  moreover have "0 \<le> s mod n + 1" using assms by (simp add: add_nonneg_nonneg)
  ultimately have "(s + 1) div n = s div n"
    using m assms
    by (metis add.commute div_mult_self2 div_pos_pos_trivial less_le add_0 not_less_iff_gr_or_eq)
  with False show ?thesis by simp
qed

lemma enqueueAll_tally:
  assumes "list_all (sameSession rc k) calls"
    and N: "0 < everyNMessages (triggers (commit rc))"
    and "sessions w k = Some entry" "0 \<le> seq0 entry"
    and "enqueueAll calls w = (rs, w')" "list_all (\<lambda>r. r = Inr True) rs"
  shows "\<exists>entry' new. sessions w' k = Some entry' \<and>
     seq0 entry' = seq0 entry + int (length calls) \<and>
     issued w' = issued w @ new \<and>
     periodicCommitsByTime (stats w) \<le> periodicCommitsByTime (stats w') \<and>
     int (periodicCommitsByMessage (stats w')) =
       int (periodicCommitsByMessage (stats w))
       + ((seq0 entry + int (length calls)) div everyNMessages (triggers (commit rc))
          - seq0 entry div everyNMessages (triggers (commit rc))) \<and>
     commitEventsQueued (stats w') + periodicCommitsByTime (stats w) + periodicCommitsByMessage (stats w) =
       commitEventsQueued (stats w) + periodicCommitsByTime (stats w') + periodicCommitsByMessage (stats w') \<and>
     (periodicCommitsByTime (stats w') = periodicCommitsByTime (stats w) \<longrightarrow>
        (if mode (commit rc) = Sync
         then commitEvents (queuedEvents new) = [] \<and>
              length (commitCalls new) + periodicCommitsByMessage (stats w) =
                periodicCommitsByMessage (stats w') \<and>
              list_all (\<lambda>c. snd c = ''periodic'') (commitCalls new)
         else length (commitEvents (queuedEvents new)) + periodicCommitsByMessage (stats w) =
                periodicCommitsByMessage (stats w') \<and>
              list_all isMessageThresholdCommit (commitEvents (queuedEvents new)) \<and>
              commitCalls new = []))"
  using assms
proof (induction calls arbitrary: w entry rs)
  case Nil
  then show ?case by (auto simp: commitEvents_def intro!: exI[of _ "[]"])
next
  case (Cons call calls)
  let ?N = "everyNMessages (triggers (commit rc))"
  obtain p env where call: "call = (p, env)" by (cases call)
  obtain r w1 where m: "enqueueOpenVikingMessage p env w = (r, w1)"
    by (cases "enqueueOpenVikingMessage p env w")
  obtain rs1 where rest: "enqueueAll calls w1 = (rs1, w')" and rs: "rs = r # rs1"
    using Cons.prems(5) call m by (auto split: prod.splits)
  from rs Cons.prems(6) have ok: "r = Inr True" "list_all (\<lambda>r. r = Inr True) rs1" by auto
  from Cons.prems(1) call have "sameSession rc k (p, env)" and srest: "list_all (sameSession rc k) calls"
    by simp_all
  then have sp: "mp_cfg p = Some rc" "map_option trim (mp_sessionKey p) = Some k"
    "mp_eventType p \<noteq> Some ''commit''"
    by (simp_all add: sameSession_def)
  from message_step[OF m[unfolded ok(1)] sp N Cons.prems(3)]
  obtain entry1 new1 where a:
    "sessions w1 k = Some entry1" "seq0 entry1 = seq0 entry + 1" "issued w1 = issued w @ new1"
    "periodicCommitsByTime (stats w) \<le> periodicCommitsByTime (stats w1)"
    "if seq0 entry + 1 \<noteq> 0 \<and> (seq0 entry + 1) mod ?N = 0
      then periodicCommitsByMessage (stats w1) = periodicCommitsByMessage (stats w) + 1 \<and>
           periodicCommitsByTime (stats w1) = periodicCommitsByTime (stats w) \<and>
           commitEventsQueued (stats w1) = commitEventsQueued (stats w) + 1 \<and>
           (if mode (commit rc) = Sync
            then commitEvents (queuedEvents new1) = [] \<and> map snd (commitCalls new1) = [''periodic'']
            else commitEvents (queuedEvents new1) = [messageCommit env] \<and> commitCalls new1 = [])
      else periodicCommitsByMessage (stats w1) = periodicCommitsByMessage (stats w) \<and>
           commitEventsQueued (stats w1) + periodicCommitsByTime (stats w) =
             commitEventsQueued (stats w) + periodicCommitsByTime (stats w1) \<and>
           (periodicCommitsByTime (stats w1) = periodicCommitsByTime (stats w) \<longrightarrow>
              commitEvents (queuedEvents new1) = [] \<and> commitCalls new1 = [])"
    by blast
  have pos1: "0 \<le> seq0 entry1" using a(2) Cons.prems(4) by simp
  from Cons.IH[OF srest N a(1) pos1 rest ok(2)]
  obtain entry' new2 where b:
    "sessions w' k = Some entry'"
    "seq0 entry' = seq0 entry1 + int (length calls)"
    "issued w' = issued w1 @ new2"
    "periodicCommitsByTime (stats w1) \<le> periodicCommitsByTime (stats w')"
    "int (periodicCommitsByMessage (stats w')) =
       int (periodicCommitsByMessage (stats w1))
       + ((seq0 entry1 + int (length calls)) div ?N - seq0 entry1 div ?N)"
    "commitEventsQueued (stats w') + periodicCommitsByTime (stats w1) + periodicCommitsByMessage (stats w1) =
       commitEventsQueued (stats w1) + periodicCommitsByTime (stats w') + periodicCommitsByMessage (stats w')"
    "periodicCommitsByTime (stats w') = periodicCommitsByTime (stats w1) \<longrightarrow>
        (if mode (commit rc) = Sync
         then commitEvents (queuedEvents new2) = [] \<and>
              length (commitCalls new2) + periodicCommitsByMessage (stats w1) =
                periodicCommitsByMessage (stats w') \<and>
              list_all (\<lambda>c. snd c = ''periodic'') (commitCalls new2)
         else length (commitEvents (queuedEvents new2)) + periodicCommitsByMessage (stats w1) =
                periodicCommitsByMessage (stats w') \<and>
              list_all isMessageThresholdCommit (commitEvents (queuedEvents new2)) \<and>
              commitCalls new2 = [])"
    by blast
  have nz: "seq0 entry + 1 \<noteq> 0" using Cons.prems(4) by simp
  have dv: "(seq0 entry + 1) div ?N = seq0 entry div ?N + (if (seq0 entry + 1) mod ?N = 0 then 1 else 0)"
    using N by (rule div_step)
  have len: "seq0 entry1 + int (length calls) = seq0 entry + int (length (call # calls))"
    using a(2) by simp
  have c1: "seq0 entry' = seq0 entry + int (length (call # calls))" using b(2) len by simp
  have c2: "issued w' = issued w @ (new1 @ new2)" using a(3) b(3) by simp
  have c3: "periodicCommitsByTime (stats w) \<le> periodicCommitsByTime (stats w')"
    using a(4) b(4) by simp
  have c4: "int (periodicCommitsByMessage (stats w')) =
       int (periodicCommitsByMessage (stats w))
       + ((seq0 entry + int (length (call # calls))) div ?N - seq0 entry div ?N)"
    using a(5) b(5) nz dv a(2) unfolding len by (auto split: if_splits)
  have c5: "commitEventsQueued (stats w') + periodicCommitsByTime (stats w) + periodicCommitsByMessage (stats w) =
       commitEventsQueued (stats w) + periodicCommitsByTime (stats w') + periodicCommitsByMessage (stats w')"
    using a(5) b(6) nz by (auto split: if_splits)
  have c6: "periodicCommitsByTime (stats w') = periodicCommitsByTime (stats w) \<longrightarrow>
        (if mode (commit rc) = Sync
         then commitEvents (queuedEvents (new1 @ new2)) = [] \<and>
              length (commitCalls (new1 @ new2)) + periodicCommitsByMessage (stats w) =
                periodicCommitsByMessage (stats w') \<and>
              list_all (\<lambda>c. snd c = ''periodic'') (commitCalls (new1 @ new2))
         else length (commitEvents (queuedEvents (new1 @ new2))) + periodicCommitsByMessage (stats w) =
                periodicCommitsByMessage (stats w') \<and>
              list_all isMessageThresholdCommit (commitEvents (queuedEvents (new1 @ new2))) \<and>
              commitCalls (new1 @ new2) = [])"
  proof
    assume eq: "periodicCommitsByTime (stats w') = periodicCommitsByTime (stats w)"
    with a(4) b(4) have e1: "periodicCommitsByTime (stats w1) = periodicCommitsByTime (stats w)"
      and e2: "periodicCommitsByTime (stats w') = periodicCommitsByTime (stats w1)" by auto
    show "if mode (commit rc) = Sync
         then commitEvents (queuedEvents (new1 @ new2)) = [] \<and>
              length (commitCalls (new1 @ new2)) + periodicCommitsByMessage (stats w) =
                periodicCommitsByMessage (stats w') \<and>
              list_all (\<lambda>c. snd c = ''periodic'') (commitCalls (new1 @ new2))
         else length (commitEvents (queuedEvents (new1 @ new2))) + periodicCommitsByMessage (stats w) =
                periodicCommitsByMessage (stats w') \<and>
              list_all isMessageThresholdCommit (commitEvents (queuedEvents (new1 @ new2))) \<and>
              commitCalls (new1 @ new2) = []"
    proof (cases "(seq0 entry + 1) mod ?N = 0")
      case True
      with a(5) nz b(7) e2 show ?thesis
        by (cases "mode (commit rc) = Sync") (auto simp: list_all_iff dest: arg_cong[where f = length] arg_cong[where f = set])
    next
      case False
      with a(5) nz b(7) e1 e2 show ?thesis
        by (cases "mode (commit rc) = Sync") auto
    qed
  qed
  show ?case
    apply (rule exI[of _ entry'])
    apply (rule exI[of _ "new1 @ new2"])
    using b(1) c1 c2 c3 c4 c5 c6 by blast
qed

lemmas bridge_eval =
  enqueueAll.simps enqueueOpenVikingMessage_def enqueueEvents.simps enqueueOpenVikingCommit.simps
  enqueueAndBump_def ensureOpenVikingSessionLink_def linkNewSession_def
  resolveLinkedOpenVikingSessionId_def readSessionEntry_def resolveContext_def
  deliverEvents_def bumpSessionSeq_def markCommitQueued_def recordQueuedEvents_def
  recordQueuedEvent_def recordCommit_def normalizeEventContent_def normalizeRole_def
  messageEvent_def commitEvent_def trim_def js_whitespace_def seqHitsThreshold_def
  timeThresholdReached_def createInitialBridgeStats_def
  exampleConfig_def exampleEnv_def exampleWorld_def exampleMessage_def Let_def

lemma example_async_run:
  "enqueueAll (exampleCalls Async 2) exampleWorld =
     ([Inr True, Inr True],
      \<lparr>sessions = [''main'' \<mapsto> \<lparr>openvikingSessionId = Some ''ov-1'', lastSyncedSeq = Some 2, lastCommitAt = Some 1000\<rparr>],
       stats = createInitialBridgeStats
         \<lparr>eventsQueued := 3, messageEventsQueued := 2, commitEventsQueued := 1, asyncCommits := 1,
          periodicCommitsByMessage := 1, lastEventQueuedAt := Some 1000, lastCommitQueuedAt := Some 1000,
          lastCommitCause := Some ''periodic'', lastCommitSource := Some ''message-threshold'',
          lastCommitMode := Some Async, lastCommitLagMs := Some 0, lastPeriodicTriggerAt := Some 1000,
          lastPeriodicTrigger := Some ''message-threshold''\<rparr>,
       issued = [CreateSession,
                 OutboxEnqueue ''main'' ''ov-1'' [messageEvent (exampleMessage Async 2 ''user'') exampleEnv],
                 OutboxEnqueue ''main'' ''ov-1'' [messageEvent (exampleMessage Async 2 ''assistant'') exampleEnv],
                 OutboxEnqueue ''main'' ''ov-1'' [messageCommit exampleEnv]]\<rparr>)"
  by (simp add: exampleCalls_def bridge_eval messageCommit_def)

lemma enqueueAndBump_queued:
  assumes "enqueueAndBump p env w = (r, w')"
  shows "\<exists>new. issued w' = issued w @ new \<and>
           (if r = Inr None then queuedEvents new = [] else queuedEvents new = ep_events p)"
  using assms
  apply (simp add: enqueueAndBump_def Let_def split: option.splits if_splits prod.splits sum.splits)
  apply (auto dest!: ensure_issued deliver_issued bump_issued)
  done

lemma enqueueEvents_queued:
  assumes "enqueueEvents p env w = (r, w')"
  shows "\<exists>new. issued w' = issued w @ new \<and>
           (if r = Inr False then queuedEvents new = []
            else queuedEvents new = ep_events p \<or>
                 (\<exists>src. queuedEvents new =
                    ep_events p @ [commitEvent (env_commit_uuid env) (Some ''periodic'') (Some src)]))"
proof -
  obtain a w1 where ab: "enqueueAndBump p env w = (a, w1)" by (cases "enqueueAndBump p env w")
  from enqueueAndBump_queued[OF ab] obtain new1 where n1:
    "issued w1 = issued w @ new1"
    "if a = Inr None then queuedEvents new1 = [] else queuedEvents new1 = ep_events p"
    by blast
  have commit: "\<And>src r2 w2.
      enqueueOpenVikingCommit
        \<lparr>cp_cfg = ep_cfg p, cp_sessionKey = Some k, cp_cause = Some ''periodic'', cp_source = Some src\<rparr>
        env w1 = (r2, w2) \<Longrightarrow>
      \<exists>new2. issued w2 = issued w1 @ new2 \<and>
        (queuedEvents new2 = [] \<or>
         queuedEvents new2 = [commitEvent (env_commit_uuid env) (Some ''periodic'') (Some src)])" for k
    by (drule commit_issued) simp
  show ?thesis
  proof (cases a)
    case (Inl e)
    with assms ab n1 show ?thesis by (auto simp: enqueueEvents.simps[of p])
  next
    case (Inr o1)
    show ?thesis
    proof (cases o1)
      case None
      with Inr assms ab n1 show ?thesis by (auto simp: enqueueEvents.simps[of p])
    next
      case (Some x)
      obtain ctx k nextSeq where x: "x = (ctx, k, nextSeq)" by (cases x)
      from Inr Some have an: "a \<noteq> Inr None" by simp
      with n1 have q1: "queuedEvents new1 = ep_events p" by simp
      let ?c = "\<lambda>src. \<lparr>cp_cfg = ep_cfg p, cp_sessionKey = Some k, cp_cause = Some ''periodic'',
                       cp_source = Some src\<rparr>"
      from assms ab Inr Some x
      consider (same) "w' = w1" "r = Inr True"
        | (fired) src r2 where "enqueueOpenVikingCommit (?c src) env w1 = (r2, w')" "r \<noteq> Inr False"
        by (auto simp: enqueueEvents.simps[of p] split: if_splits prod.splits sum.splits)
      then show ?thesis
      proof cases
        case same
        with n1 q1 show ?thesis by auto
      next
        case fired
        from commit[OF fired(1)] obtain new2 where
          "issued w' = issued w1 @ new2"
          "queuedEvents new2 = [] \<or>
           queuedEvents new2 = [commitEvent (env_commit_uuid env) (Some ''periodic'') (Some src)]"
          by blast
        with n1(1) q1 fired(2) show ?thesis
          by (intro exI[of _ "new1 @ new2"]) auto
      qed
    qed
  qed
qed

text \<open>When nothing throws and a session can be had, an enqueue with a usable context succeeds.\<close>

lemma linkNewSession_created:
  "sessionCreated env \<Longrightarrow> \<exists>sid w1. linkNewSession k env w = (Some sid, w1) \<and> sid \<noteq> []"
  by (auto simp: sessionCreated_def linkNewSession_def Let_def split: sum.splits option.splits)

lemma ensure_created:
  assumes "sessionCreated env" "usableContext (Some ctx) = Some (ctx, k)"
  shows "\<exists>sid w1. ensureOpenVikingSessionLink (Some ctx) env w = (Some sid, w1) \<and> sid \<noteq> []"
  using assms linkNewSession_created[OF assms(1), of k w]
  by (auto simp: ensureOpenVikingSessionLink_def split: option.splits)

lemma deliver_accepted:
  "nothingThrows env \<Longrightarrow> fst (deliverEvents resolved k sid evs env w) = Inr ()"
  by (simp add: deliverEvents_def nothingThrows_def)

lemma enqueueAndBump_never_throws:
  assumes "nothingThrows env"
  shows "\<exists>b w1. enqueueAndBump p env w = (Inr b, w1)"
proof -
  have d: "deliverEvents resolved k sid evs env w0 = (Inl e, w2) \<Longrightarrow> False" for resolved k sid evs w0 e w2
    using deliver_accepted[OF assms, of resolved k sid evs w0] by simp
  show ?thesis
    by (auto simp: enqueueAndBump_def Let_def split: option.splits prod.splits sum.splits dest: d)
qed

lemma enqueueAndBump_accepted:
  assumes "nothingThrows env" "sessionCreated env"
    and "usableContext (resolveContext (ep_cfg p) (ep_sessionKey p)) = Some (ctx, k)"
    and "dualWrite (ctx_resolved ctx)"
  shows "\<exists>x w1. enqueueAndBump p env w = (Inr (Some x), w1)"
proof -
  from usable_key[OF assms(3)] have u: "usableContext (Some ctx) = Some (ctx, k)"
    by (auto split: option.splits)
  from ensure_created[OF assms(2) u, of w] obtain sid w1 where
    en: "ensureOpenVikingSessionLink (Some ctx) env w = (Some sid, w1)" "sid \<noteq> []"
    by blast
  obtain d w2 where de: "deliverEvents (ctx_resolved ctx) k sid (ep_events p) env w1 = (d, w2)"
    by (cases "deliverEvents (ctx_resolved ctx) k sid (ep_events p) env w1")
  with deliver_accepted[OF assms(1), of "ctx_resolved ctx" k sid "ep_events p" w1]
  have d: "d = Inr ()" by simp
  show ?thesis
    using assms(3,4) en de d
    by (auto simp: enqueueAndBump_def Let_def split: prod.splits)
qed

lemma commit_never_throws:
  assumes "nothingThrows env"
  shows "\<exists>b w1. enqueueOpenVikingCommit cp env w = (Inr b, w1)"
proof -
  have skip: False
    if "enqueueEvents q env w0 = (Inl e, w2)" "ep_skipCommitTriggers q = Some True" for q w0 e w2
    using enqueueAndBump_never_throws[OF assms, of q w0] that
    by (auto simp: enqueueEvents_skip split: option.splits)
  have cs: "env_commitSession env sid c = Inr ()" for sid c
    using assms by (simp add: nothingThrows_def)
  show ?thesis
    unfolding enqueueOpenVikingCommit.simps[of cp]
    by (auto simp: cs Let_def split: option.splits prod.splits sum.splits if_splits dest: skip)
qed

lemma enqueueEvents_accepted:
  assumes "nothingThrows env" "sessionCreated env"
    and "usableContext (resolveContext (ep_cfg p) (ep_sessionKey p)) = Some (ctx, k)"
    and "dualWrite (ctx_resolved ctx)"
  shows "fst (enqueueEvents p env w) = Inr True"
proof -
  from enqueueAndBump_accepted[OF assms, of w] obtain x w1 where
    ab: "enqueueAndBump p env w = (Inr (Some x), w1)" by blast
  obtain c k' n where x: "x = (c, k', n)" by (cases x)
  have cm: False if "enqueueOpenVikingCommit cp env w1 = (Inl e, w2)" for cp e w2
    using commit_never_throws[OF assms(1), of cp w1] that by auto
  show ?thesis
    unfolding enqueueEvents.simps[of p] ab x
    by (auto split: prod.splits sum.splits dest: cm)
qed

subsection \<open>Claims about the write bridge\<close>

definition contentOf :: "MessageParams \<Rightarrow> string" where
  "contentOf p = (case mp_content p of None \<Rightarrow> [] | Some s \<Rightarrow> s)"

definition isPeriodicCommit :: "OpenVikingSessionEvent \<Rightarrow> bool" where
  "isPeriodicCommit event =
     (event_type event = ''commit'' \<and> role event = None \<and> cause event = Some ''periodic'')"

definition longMessage :: MessageParams where
  "longMessage =
     \<lparr>mp_cfg = Some (exampleConfig Async 2), mp_sessionKey = Some ''main'', mp_role = Some ''system'',
      mp_content = Some (replicate 16001 (CHR ''a'')), mp_eventType = None, mp_metadata = None\<rparr>"

definition blankMessage :: MessageParams where
  "blankMessage =
     \<lparr>mp_cfg = Some (exampleConfig Async 2), mp_sessionKey = Some ''main'', mp_role = Some ''user'',
      mp_content = Some ''  '', mp_eventType = None, mp_metadata = None\<rparr>"

lemma trim_replicate: "\<not> js_whitespace c \<Longrightarrow> trim (replicate n c) = replicate n c"
  by (simp add: trim_def dropWhile_replicate)

lemma normalizeEventContent_contentOf:
  "normalizeEventContent (mp_content p) =
     (if trim (contentOf p) = [] then []
      else if 16000 < length (trim (contentOf p))
           then take 16000 (trim (contentOf p)) @ [CHR 0x0A, CHR 0x0A] @ ''[truncated]''
           else trim (contentOf p))"
  by (simp add: normalizeEventContent_def contentOf_def truncated_marker_def Let_def)

lemma message_queued:
  assumes "enqueueOpenVikingMessage p env w = (r, w')" "trim (contentOf p) \<noteq> []"
  shows "\<exists>new. issuedSince w w' = new \<and>
           (if r = Inr False then queuedEvents new = []
            else queuedEvents new = [messageEvent p env] \<or>
                 (\<exists>src. queuedEvents new =
                    [messageEvent p env, commitEvent (env_commit_uuid env) (Some ''periodic'') (Some src)]))"
proof -
  let ?q = "\<lparr>ep_cfg = mp_cfg p, ep_sessionKey = mp_sessionKey p, ep_events = [messageEvent p env],
             ep_bumpSeq = None, ep_skipCommitTriggers = None\<rparr>"
  from assms have "enqueueEvents ?q env w = (r, w')"
    by (simp add: enqueueOpenVikingMessage_def normalizeEventContent_contentOf split: if_splits)
  from enqueueEvents_queued[OF this] show ?thesis
    by (auto simp: issuedSince_def)
qed

lemma message_queued_first:
  assumes "enqueueOpenVikingMessage p env w = (r, w')" "r \<noteq> Inr False"
  shows "\<exists>rest. queuedEvents (issuedSince w w') = messageEvent p env # rest
           \<and> list_all isPeriodicCommit rest"
proof -
  have ne: "trim (contentOf p) \<noteq> []"
    using assms by (auto simp: enqueueOpenVikingMessage_def normalizeEventContent_contentOf)
  from message_queued[OF assms(1) ne] assms(2) show ?thesis
    by (auto simp: isPeriodicCommit_def commitEvent_def)
qed

lemma message_accepted:
  assumes "nothingThrows env" "sessionCreated env"
    and "mp_cfg p = Some rc" "dualWrite rc"
    and "mp_sessionKey p = Some sk" "trim sk \<noteq> []"
    and "trim (contentOf p) \<noteq> []"
  shows "fst (enqueueOpenVikingMessage p env w) = Inr True"
proof -
  let ?q = "\<lparr>ep_cfg = mp_cfg p, ep_sessionKey = mp_sessionKey p, ep_events = [messageEvent p env],
             ep_bumpSeq = None, ep_skipCommitTriggers = None\<rparr>"
  let ?ctx = "\<lparr>ctx_resolved = rc, ctx_sessionKey = Some (trim sk)\<rparr>"
  have u: "usableContext (resolveContext (ep_cfg ?q) (ep_sessionKey ?q)) = Some (?ctx, trim sk)"
    using assms(3,5,6) by (simp add: resolveContext_def)
  have dw: "dualWrite (ctx_resolved ?ctx)" using assms(4) by simp
  from enqueueEvents_accepted[OF assms(1,2) u dw, of w] assms(7)
  show ?thesis
    by (simp add: enqueueOpenVikingMessage_def normalizeEventContent_contentOf)
qed

lemma long_run:
  "enqueueOpenVikingMessage longMessage exampleEnv exampleWorld =
     (Inr True,
      \<lparr>sessions = [''main'' \<mapsto> \<lparr>openvikingSessionId = Some ''ov-1'', lastSyncedSeq = Some 1,
                                lastCommitAt = None\<rparr>],
       stats = createInitialBridgeStats
         \<lparr>eventsQueued := 1, messageEventsQueued := 1, lastEventQueuedAt := Some 1000\<rparr>,
       issued = [CreateSession,
                 OutboxEnqueue ''main'' ''ov-1'' [messageEvent longMessage exampleEnv]]\<rparr>)"
proof -
  have l: "trim (contentOf longMessage) = replicate 16001 (CHR ''a'')"
    by (simp add: contentOf_def longMessage_def trim_replicate js_whitespace_def)
  have c: "normalizeEventContent (mp_content longMessage) \<noteq> []"
    by (simp add: normalizeEventContent_contentOf l)
  have t: "trim ''main'' = ''main''" "trim ''ov-1'' = ''ov-1''" by (simp_all add: trim_def js_whitespace_def)
  have ty: "event_type (messageEvent longMessage exampleEnv) = ''message''"
    by (simp add: messageEvent_def longMessage_def)
  have f: "mp_cfg longMessage = Some (exampleConfig Async 2)" "mp_sessionKey longMessage = Some ''main''"
    by (simp_all add: longMessage_def)
  show ?thesis
    using c t ty f
    by (simp add: enqueueOpenVikingMessage_def enqueueEvents.simps enqueueAndBump_def
          ensureOpenVikingSessionLink_def linkNewSession_def resolveLinkedOpenVikingSessionId_def
          readSessionEntry_def resolveContext_def deliverEvents_def bumpSessionSeq_def
          seqHitsThreshold_def timeThresholdReached_def recordQueuedEvents_def recordQueuedEvent_def
          createInitialBridgeStats_def
          exampleConfig_def exampleEnv_def exampleWorld_def Let_def)
qed

text \<open>
  Claim C4, as amended. With \<open>everyNMessages = N > 0\<close>, take \<open>n * N\<close> calls of
  \<open>enqueueOpenVikingMessage\<close> for one session key, none of event type \<open>commit\<close>, each returning
  \<open>true\<close>, from a store entry whose \<open>lastSyncedSeq\<close> is 0, and suppose no time-threshold commit was
  recorded. Then \<open>lastSyncedSeq\<close> is \<open>n * N\<close> (the commits did not bump it),
  \<open>commitEventsQueued\<close> and \<open>periodicCommitsByMessage\<close> have grown by exactly \<open>n\<close> (the commits
  did not trigger again), and
  \<^item> in \<open>async\<close> mode exactly \<open>n\<close> commit events were handed to the outbox or the store, so at
    least \<open>n\<close> and at most \<open>n + 1\<close>, each with cause \<open>periodic\<close> and source
    \<open>message-threshold\<close>, and \<open>commitSession\<close> was never called;
  \<^item> in \<open>sync\<close> mode no commit event was handed on at all: \<open>commitSession\<close> was called \<open>n\<close>
    times instead, each time with cause \<open>periodic\<close>.
\<close>

theorem periodic_commits_after_kN_messages:
  assumes "list_all (sameSession rc k) calls"
    and "0 < everyNMessages (triggers (commit rc))"
    and "length calls = n * nat (everyNMessages (triggers (commit rc)))"
    and "sessions w k = Some entry" "seq0 entry = 0"
    and "enqueueAll calls w = (rs, w')" "list_all (\<lambda>r. r = Inr True) rs"
    and "periodicCommitsByTime (stats w') = periodicCommitsByTime (stats w)"
  shows "(\<exists>entry'. sessions w' k = Some entry' \<and>
            seq0 entry' = int n * everyNMessages (triggers (commit rc))) \<and>
     take (length (issued w)) (issued w') = issued w \<and>
     commitEventsQueued (stats w') = commitEventsQueued (stats w) + n \<and>
     periodicCommitsByMessage (stats w') = periodicCommitsByMessage (stats w) + n \<and>
     (if mode (commit rc) = Sync
      then commitEvents (queuedEvents (issuedSince w w')) = [] \<and>
           length (commitCalls (issuedSince w w')) = n \<and>
           list_all (\<lambda>c. snd c = ''periodic'') (commitCalls (issuedSince w w'))
      else length (commitEvents (queuedEvents (issuedSince w w'))) = n \<and>
           n \<le> length (commitEvents (queuedEvents (issuedSince w w'))) \<and>
           length (commitEvents (queuedEvents (issuedSince w w'))) \<le> n + 1 \<and>
           list_all isMessageThresholdCommit (commitEvents (queuedEvents (issuedSince w w'))) \<and>
           commitCalls (issuedSince w w') = [])"
proof -
  let ?N = "everyNMessages (triggers (commit rc))"
  have pos: "0 \<le> seq0 entry" using assms(5) by simp
  from enqueueAll_tally[OF assms(1,2,4) pos assms(6,7)]
  obtain entry' new where t:
    "sessions w' k = Some entry'"
    "seq0 entry' = seq0 entry + int (length calls)"
    "issued w' = issued w @ new"
    "int (periodicCommitsByMessage (stats w')) =
       int (periodicCommitsByMessage (stats w))
       + ((seq0 entry + int (length calls)) div ?N - seq0 entry div ?N)"
    "commitEventsQueued (stats w') + periodicCommitsByTime (stats w) + periodicCommitsByMessage (stats w) =
       commitEventsQueued (stats w) + periodicCommitsByTime (stats w') + periodicCommitsByMessage (stats w')"
    "periodicCommitsByTime (stats w') = periodicCommitsByTime (stats w) \<longrightarrow>
        (if mode (commit rc) = Sync
         then commitEvents (queuedEvents new) = [] \<and>
              length (commitCalls new) + periodicCommitsByMessage (stats w) =
                periodicCommitsByMessage (stats w') \<and>
              list_all (\<lambda>c. snd c = ''periodic'') (commitCalls new)
         else length (commitEvents (queuedEvents new)) + periodicCommitsByMessage (stats w) =
                periodicCommitsByMessage (stats w') \<and>
              list_all isMessageThresholdCommit (commitEvents (queuedEvents new)) \<and>
              commitCalls new = [])"
    by blast
  have len: "int (length calls) = int n * ?N" using assms(2,3) by simp
  have since: "issuedSince w w' = new" by (simp add: issuedSince_def t(3))
  have "(seq0 entry + int (length calls)) div ?N - seq0 entry div ?N = int n"
    using assms(2,5) len by simp
  with t(4) have pm: "periodicCommitsByMessage (stats w') = periodicCommitsByMessage (stats w) + n"
    by linarith
  with t(5) assms(8) have cq: "commitEventsQueued (stats w') = commitEventsQueued (stats w) + n"
    by simp
  from t(6) assms(8) pm have last:
    "if mode (commit rc) = Sync
      then commitEvents (queuedEvents new) = [] \<and> length (commitCalls new) = n \<and>
           list_all (\<lambda>c. snd c = ''periodic'') (commitCalls new)
      else length (commitEvents (queuedEvents new)) = n \<and>
           list_all isMessageThresholdCommit (commitEvents (queuedEvents new)) \<and>
           commitCalls new = []"
    by (auto split: if_splits)
  show ?thesis
    using t(1,2,3) assms(5) len pm cq last unfolding since by (auto split: if_splits)
qed

theorem periodic_commits_after_kN_messages_witness:
  "list_all (sameSession (exampleConfig Async 2) ''main'') (exampleCalls Async 2)
   \<and> 0 < everyNMessages (triggers (commit (exampleConfig Async 2)))
   \<and> length (exampleCalls Async 2) = 1 * nat (everyNMessages (triggers (commit (exampleConfig Async 2))))
   \<and> seq0 \<lparr>openvikingSessionId = None, lastSyncedSeq = None, lastCommitAt = None\<rparr> = 0
   \<and> list_all (\<lambda>r. r = Inr True) (fst (enqueueAll (exampleCalls Async 2) exampleWorld))
   \<and> periodicCommitsByTime (stats (snd (enqueueAll (exampleCalls Async 2) exampleWorld))) =
       periodicCommitsByTime (stats exampleWorld)
   \<and> length (commitEvents (queuedEvents
        (issuedSince exampleWorld (snd (enqueueAll (exampleCalls Async 2) exampleWorld))))) = 1
   \<and> list_all isMessageThresholdCommit (commitEvents (queuedEvents
        (issuedSince exampleWorld (snd (enqueueAll (exampleCalls Async 2) exampleWorld)))))
   \<and> commitEventsQueued (stats (snd (enqueueAll (exampleCalls Async 2) exampleWorld))) = 1"
proof -
  let ?entry = "\<lparr>openvikingSessionId = None, lastSyncedSeq = None, lastCommitAt = None\<rparr>"
  let ?run = "enqueueAll (exampleCalls Async 2) exampleWorld"
  have h1: "list_all (sameSession (exampleConfig Async 2) ''main'') (exampleCalls Async 2)"
    by (simp add: sameSession_def exampleCalls_def exampleMessage_def trim_def js_whitespace_def)
  have h2: "0 < everyNMessages (triggers (commit (exampleConfig Async 2)))"
    by (simp add: exampleConfig_def)
  have h3: "length (exampleCalls Async 2) =
              1 * nat (everyNMessages (triggers (commit (exampleConfig Async 2))))"
    by (simp add: exampleCalls_def exampleConfig_def)
  have h4: "sessions exampleWorld ''main'' = Some ?entry" by (simp add: exampleWorld_def)
  have h5: "seq0 ?entry = 0" by (simp add: seq0_def)
  have h6: "?run = (fst ?run, snd ?run)" by simp
  have h7: "list_all (\<lambda>r. r = Inr True) (fst ?run)" by (simp add: example_async_run)
  have h8: "periodicCommitsByTime (stats (snd ?run)) = periodicCommitsByTime (stats exampleWorld)"
    unfolding example_async_run by (simp add: exampleWorld_def createInitialBridgeStats_def)
  have m: "mode (commit (exampleConfig Async 2)) \<noteq> Sync" by (simp add: exampleConfig_def)
  have s0: "commitEventsQueued (stats exampleWorld) = 0"
    by (simp add: exampleWorld_def createInitialBridgeStats_def)
  from periodic_commits_after_kN_messages[OF h1 h2 h3 h4 h5 h6 h7 h8] m h1 h2 h3 h5 h7 h8 s0
  show ?thesis by simp
qed

text \<open>
  Claim C4 as stated fails in \<open>sync\<close> mode: with \<open>N = 2\<close>, two successful message enqueues reach
  the threshold once, the commit goes to \<open>commitSession\<close>, and no commit event is enqueued.
\<close>

theorem sync_commit_enqueues_no_commit_event:
  "fst (enqueueAll (exampleCalls Sync 2) exampleWorld) = [Inr True, Inr True]
   \<and> length (exampleCalls Sync 2) = 1 * 2
   \<and> everyNMessages (triggers (commit (exampleConfig Sync 2))) = 2
   \<and> periodicCommitsByTime (stats (snd (enqueueAll (exampleCalls Sync 2) exampleWorld))) = 0
   \<and> commitCalls (issued (snd (enqueueAll (exampleCalls Sync 2) exampleWorld))) = [(''ov-1'', ''periodic'')]
   \<and> \<not> 1 \<le> length (commitEvents (queuedEvents
            (issued (snd (enqueueAll (exampleCalls Sync 2) exampleWorld)))))"
  by (simp add: exampleCalls_def bridge_eval commitEvents_def)

text \<open>
  Claim C6. \<open>enqueueOpenVikingMessage\<close> trims the content first. When the trimmed content is
  empty the call returns \<open>false\<close> and leaves everything as it was, so nothing is enqueued.
  Unless the call returns \<open>false\<close>, the first event it hands to the outbox or the store is
  its own, and the content of that event is the trimmed content, cut to its first 16000
  characters and followed by a newline, a newline and \<open>[truncated]\<close> when it is longer; what
  follows it, if anything, is a commit event. The truncation is no error: when the trimmed content
  is not empty, the configuration has dual write on, the session key is not blank, a session can
  be had and no outbox or store call throws, the call returns \<open>true\<close>, however long the
  content is.
\<close>

theorem message_content_trimmed_and_capped:
  assumes "enqueueOpenVikingMessage p env w = (r, w')"
  shows "(trim (contentOf p) = [] \<longrightarrow> r = Inr False \<and> w' = w)
    \<and> (r \<noteq> Inr False \<longrightarrow>
          (\<exists>event rest. queuedEvents (issuedSince w w') = event # rest
             \<and> event_id event = env_event_uuid env
             \<and> content event =
                 Some (if 16000 < length (trim (contentOf p))
                       then take 16000 (trim (contentOf p)) @ [CHR 0x0A, CHR 0x0A] @ ''[truncated]''
                       else trim (contentOf p))
             \<and> list_all (\<lambda>other. event_type other = ''commit'') rest))
    \<and> (trim (contentOf p) \<noteq> [] \<and> nothingThrows env \<and> sessionCreated env
         \<and> (\<exists>rc sk. mp_cfg p = Some rc \<and> dualWrite rc \<and> mp_sessionKey p = Some sk \<and> trim sk \<noteq> [])
         \<longrightarrow> r = Inr True)"
proof -
  have blank: "r = Inr False \<and> w' = w" if "trim (contentOf p) = []"
    using assms that by (simp add: enqueueOpenVikingMessage_def normalizeEventContent_contentOf)
  have queued: "\<exists>event rest. queuedEvents (issuedSince w w') = event # rest
             \<and> event_id event = env_event_uuid env
             \<and> content event =
                 Some (if 16000 < length (trim (contentOf p))
                       then take 16000 (trim (contentOf p)) @ [CHR 0x0A, CHR 0x0A] @ ''[truncated]''
                       else trim (contentOf p))
             \<and> list_all (\<lambda>other. event_type other = ''commit'') rest"
    if nf: "r \<noteq> Inr False"
  proof -
    from nf blank have ne: "trim (contentOf p) \<noteq> []" by blast
    from message_queued_first[OF assms nf] obtain rest where
      q: "queuedEvents (issuedSince w w') = messageEvent p env # rest"
        "list_all isPeriodicCommit rest"
      by blast
    have c: "content (messageEvent p env) =
        Some (if 16000 < length (trim (contentOf p))
              then take 16000 (trim (contentOf p)) @ [CHR 0x0A, CHR 0x0A] @ ''[truncated]''
              else trim (contentOf p))"
      using ne by (simp add: messageEvent_def normalizeEventContent_contentOf)
    have i: "event_id (messageEvent p env) = env_event_uuid env" by (simp add: messageEvent_def)
    from q(2) have "list_all (\<lambda>other. event_type other = ''commit'') rest"
      by (simp add: list_all_iff isPeriodicCommit_def)
    with q(1) c i show ?thesis by blast
  qed
  have accepted: "r = Inr True"
    if "trim (contentOf p) \<noteq> [] \<and> nothingThrows env \<and> sessionCreated env
         \<and> (\<exists>rc sk. mp_cfg p = Some rc \<and> dualWrite rc \<and> mp_sessionKey p = Some sk
                     \<and> trim sk \<noteq> [])"
  proof -
    from that obtain rc sk where
      "mp_cfg p = Some rc" "dualWrite rc" "mp_sessionKey p = Some sk" "trim sk \<noteq> []"
      by blast
    from message_accepted[OF _ _ this, of env w] that assms show ?thesis by simp
  qed
  from blank queued accepted show ?thesis by blast
qed

theorem message_content_trimmed_and_capped_witness:
  "enqueueOpenVikingMessage blankMessage exampleEnv exampleWorld = (Inr False, exampleWorld)
   \<and> 16000 < length (trim (contentOf longMessage))
   \<and> fst (enqueueOpenVikingMessage longMessage exampleEnv exampleWorld) = Inr True
   \<and> queuedEvents (issuedSince exampleWorld
          (snd (enqueueOpenVikingMessage longMessage exampleEnv exampleWorld))) =
       [\<lparr>event_id = ''e'', event_type = ''message'', role = Some ''assistant'',
         content = Some (replicate 16000 (CHR ''a'') @ [CHR 0x0A, CHR 0x0A] @ ''[truncated]''),
         cause = None, metadata = None\<rparr>]"
proof -
  let ?b = "enqueueOpenVikingMessage blankMessage exampleEnv exampleWorld"
  let ?l = "enqueueOpenVikingMessage longMessage exampleEnv exampleWorld"
  have b: "trim (contentOf blankMessage) = []"
    by (simp add: contentOf_def blankMessage_def trim_def js_whitespace_def)
  have l: "trim (contentOf longMessage) = replicate 16001 (CHR ''a'')"
    by (simp add: contentOf_def longMessage_def trim_replicate js_whitespace_def)
  from message_content_trimmed_and_capped[of blankMessage exampleEnv exampleWorld "fst ?b" "snd ?b"] b
  have "fst ?b = Inr False \<and> snd ?b = exampleWorld" by simp
  then have blank: "?b = (Inr False, exampleWorld)" by (metis prod.collapse)
  have pair: "?l = (fst ?l, snd ?l)" by simp
  note long = message_content_trimmed_and_capped[OF pair]
  have h0: "trim (contentOf longMessage) \<noteq> []" by (simp add: l)
  have h: "nothingThrows exampleEnv" "sessionCreated exampleEnv"
    "\<exists>rc sk. mp_cfg longMessage = Some rc \<and> dualWrite rc \<and> mp_sessionKey longMessage = Some sk
        \<and> trim sk \<noteq> []"
    by (simp_all add: nothingThrows_def sessionCreated_def exampleEnv_def longMessage_def
          exampleConfig_def trim_def js_whitespace_def)
  from long h0 h have ok: "fst ?l = Inr True" by simp
  with long obtain event rest where
    q: "queuedEvents (issuedSince exampleWorld (snd ?l)) = event # rest"
      "content event =
         Some (if 16000 < length (trim (contentOf longMessage))
               then take 16000 (trim (contentOf longMessage)) @ [CHR 0x0A, CHR 0x0A] @ ''[truncated]''
               else trim (contentOf longMessage))"
    by auto
  have run: "queuedEvents (issuedSince exampleWorld (snd ?l)) = [messageEvent longMessage exampleEnv]"
    unfolding long_run by (simp add: issuedSince_def exampleWorld_def)
  from q(1) run have e: "event = messageEvent longMessage exampleEnv" by simp
  from q(2) have c: "content (messageEvent longMessage exampleEnv) =
      Some (replicate 16000 (CHR ''a'') @ [CHR 0x0A, CHR 0x0A] @ ''[truncated]'')"
    unfolding e l by simp
  have "messageEvent longMessage exampleEnv =
      \<lparr>event_id = ''e'', event_type = ''message'', role = Some ''assistant'',
       content = Some (replicate 16000 (CHR ''a'') @ [CHR 0x0A, CHR 0x0A] @ ''[truncated]''),
       cause = None, metadata = None\<rparr>"
    using c by (simp add: messageEvent_def normalizeRole_def longMessage_def exampleEnv_def)
  with run blank ok l show ?thesis by simp
qed

text \<open>
  Claim C10. Unless a call of \<open>enqueueOpenVikingMessage\<close> returns \<open>false\<close>, the first event
  it hands to the outbox or the store is its own, with role \<open>user\<close> when the supplied role is
  exactly \<open>user\<close> and \<open>assistant\<close> for every other role, given or not; what follows it, if
  anything, is a periodic commit, which has no role. So every event the call hands on that is not
  a commit has role \<open>user\<close> or \<open>assistant\<close>. An invalid role raises nothing: whatever the
  role, when the trimmed content is not empty, the configuration has dual write on, the session
  key is not blank, a session can be had and no outbox or store call throws, the call returns
  \<open>true\<close>.
\<close>

theorem message_role_user_or_assistant:
  assumes "enqueueOpenVikingMessage p env w = (r, w')"
  shows "(r \<noteq> Inr False \<longrightarrow>
          (\<exists>event rest. queuedEvents (issuedSince w w') = event # rest
             \<and> event_id event = env_event_uuid env
             \<and> role event = Some (if mp_role p = Some ''user'' then ''user'' else ''assistant'')
             \<and> list_all isPeriodicCommit rest))
    \<and> list_all (\<lambda>event. role event = Some ''user'' \<or> role event = Some ''assistant''
                       \<or> isPeriodicCommit event)
         (queuedEvents (issuedSince w w'))
    \<and> (trim (contentOf p) \<noteq> [] \<and> nothingThrows env \<and> sessionCreated env
         \<and> (\<exists>rc sk. mp_cfg p = Some rc \<and> dualWrite rc \<and> mp_sessionKey p = Some sk
                     \<and> trim sk \<noteq> [])
         \<longrightarrow> r = Inr True)"
proof -
  have ro: "role (messageEvent p env) =
              Some (if mp_role p = Some ''user'' then ''user'' else ''assistant'')"
    by (simp add: messageEvent_def normalizeRole_def)
  have i: "event_id (messageEvent p env) = env_event_uuid env" by (simp add: messageEvent_def)
  have first: "\<exists>event rest. queuedEvents (issuedSince w w') = event # rest
             \<and> event_id event = env_event_uuid env
             \<and> role event = Some (if mp_role p = Some ''user'' then ''user'' else ''assistant'')
             \<and> list_all isPeriodicCommit rest"
    if "r \<noteq> Inr False"
    using message_queued_first[OF assms that] ro i by blast
  have every: "list_all (\<lambda>event. role event = Some ''user'' \<or> role event = Some ''assistant''
                       \<or> isPeriodicCommit event)
         (queuedEvents (issuedSince w w'))"
  proof (cases "r = Inr False")
    case True
    show ?thesis
    proof (cases "trim (contentOf p) = []")
      case True
      with assms have "w' = w"
        by (simp add: enqueueOpenVikingMessage_def normalizeEventContent_contentOf)
      then show ?thesis by (simp add: issuedSince_def)
    next
      case False
      from message_queued[OF assms False] \<open>r = Inr False\<close> show ?thesis by simp
    qed
  next
    case False
    from message_queued_first[OF assms False] obtain rest where
      q: "queuedEvents (issuedSince w w') = messageEvent p env # rest"
        "list_all isPeriodicCommit rest"
      by blast
    from q(2) have "list_all (\<lambda>event. role event = Some ''user'' \<or> role event = Some ''assistant''
                       \<or> isPeriodicCommit event) rest"
      by (simp add: list_all_iff)
    with q(1) ro show ?thesis by simp
  qed
  have accepted: "r = Inr True"
    if "trim (contentOf p) \<noteq> [] \<and> nothingThrows env \<and> sessionCreated env
         \<and> (\<exists>rc sk. mp_cfg p = Some rc \<and> dualWrite rc \<and> mp_sessionKey p = Some sk
                     \<and> trim sk \<noteq> [])"
  proof -
    from that obtain rc sk where
      "mp_cfg p = Some rc" "dualWrite rc" "mp_sessionKey p = Some sk" "trim sk \<noteq> []"
      by blast
    from message_accepted[OF _ _ this, of env w] that assms show ?thesis by simp
  qed
  from first every accepted show ?thesis by blast
qed

theorem message_role_user_or_assistant_witness:
  "mp_role (exampleMessage Async 2 ''system'') = Some ''system''
   \<and> fst (enqueueOpenVikingMessage (exampleMessage Async 2 ''system'') exampleEnv exampleWorld) =
       Inr True
   \<and> queuedEvents (issuedSince exampleWorld
          (snd (enqueueOpenVikingMessage (exampleMessage Async 2 ''system'') exampleEnv exampleWorld))) =
       [\<lparr>event_id = ''e'', event_type = ''message'', role = Some ''assistant'',
         content = Some ''hi'', cause = None, metadata = None\<rparr>]"
proof -
  let ?m = "exampleMessage Async 2 ''system''"
  let ?s = "enqueueOpenVikingMessage ?m exampleEnv exampleWorld"
  have pair: "?s = (fst ?s, snd ?s)" by simp
  note inst = message_role_user_or_assistant[OF pair]
  have h: "trim (contentOf ?m) \<noteq> []" "nothingThrows exampleEnv" "sessionCreated exampleEnv"
    "\<exists>rc sk. mp_cfg ?m = Some rc \<and> dualWrite rc \<and> mp_sessionKey ?m = Some sk \<and> trim sk \<noteq> []"
    by (simp_all add: contentOf_def nothingThrows_def sessionCreated_def exampleEnv_def
          exampleMessage_def exampleConfig_def trim_def js_whitespace_def)
  from inst h have ok: "fst ?s = Inr True" by simp
  with inst obtain event rest where
    q: "queuedEvents (issuedSince exampleWorld (snd ?s)) = event # rest"
      "role event = Some (if mp_role ?m = Some ''user'' then ''user'' else ''assistant'')"
    by auto
  have run: "queuedEvents (issuedSince exampleWorld (snd ?s)) =
       [\<lparr>event_id = ''e'', event_type = ''message'', role = role event,
         content = Some ''hi'', cause = None, metadata = None\<rparr>]"
    using q by (simp add: issuedSince_def bridge_eval)
  have r: "role event = Some ''assistant''"
    using q(2) by (simp add: exampleMessage_def)
  from ok run r show ?thesis by (simp add: exampleMessage_def)
qed

section \<open>FS write policy gate (fs-relations.ts)\<close>

record ResolvedMemoryBackendConfig =
  backend :: string
  openviking :: "ResolvedOpenVikingConfig option"

datatype FsOperation = Mkdir | Rm | Mv

text \<open>The one request a mutating fs operation hands to the store client once it is vetted.\<close>

datatype fs_request =
    FsMkdir string
  | FsRm string bool
  | FsMv string string

definition resolveOpenVikingContext ::
  "ResolvedMemoryBackendConfig \<Rightarrow> error + ResolvedOpenVikingConfig" where
  "resolveOpenVikingContext resolved =
     (case openviking resolved of
        None \<Rightarrow>
          Inl (Error (''memory backend is '' @ backend resolved @ ''; openviking backend required''))
      | Some ov \<Rightarrow>
          if backend resolved \<noteq> ''openviking'' then
            Inl (Error (''memory backend is '' @ backend resolved @ ''; openviking backend required''))
          else Inr ov)"

text \<open>\<open>replace(/\/+$/, "")\<close>: every trailing slash goes.\<close>

definition stripTrailingSlashes :: "string \<Rightarrow> string" where
  "stripTrailingSlashes s = rev (dropWhile (\<lambda>c. c = CHR ''/'') (rev s))"

definition normalizePolicyUri :: "string \<Rightarrow> string \<Rightarrow> error + string" where
  "normalizePolicyUri v label =
     (let trimmed = trim v in
      if trimmed = [] then Inl (Error (label @ '' is required''))
      else if \<not> startsWith trimmed ''viking://'' then
        Inl (Error (label @ '' must start with '' @ [CHR 0x22] @ ''viking://'' @ [CHR 0x22]))
      else if trimmed = ''viking://'' then Inr trimmed
      else
        (let normalized = stripTrailingSlashes trimmed in
         Inr (if normalized = [] then ''viking://'' else normalized)))"

definition uriMatchesPrefix :: "string \<Rightarrow> string \<Rightarrow> bool" where
  "uriMatchesPrefix uri p = (p = ''viking://'' \<or> uri = p \<or> startsWith uri (p @ ''/''))"

text \<open>\<open>values.map(normalizePolicyUri)\<close>: the first entry that does not normalise throws.\<close>

fun normalizePolicyRuleList :: "string list \<Rightarrow> string \<Rightarrow> error + string list" where
  "normalizePolicyRuleList [] label = Inr []"
| "normalizePolicyRuleList (v # vs) label =
     (case normalizePolicyUri v label of
        Inl e \<Rightarrow> Inl e
      | Inr u \<Rightarrow>
          (case normalizePolicyRuleList vs label of
             Inl e \<Rightarrow> Inl e
           | Inr us \<Rightarrow> Inr (u # us)))"

definition enforceOpenVikingFsWritePolicy ::
  "ResolvedOpenVikingConfig \<Rightarrow> string \<Rightarrow> FsOperation \<Rightarrow> bool option \<Rightarrow> error + string" where
  "enforceOpenVikingFsWritePolicy resolved uri operation recursive =
     (case fsWrite resolved of
        None \<Rightarrow>
          Inl (Error ''OpenViking fs write is disabled by policy. Set memory.openviking.fsWrite.enabled=true to enable.'')
      | Some fw \<Rightarrow>
          if \<not> fsWrite_enabled fw then
            Inl (Error ''OpenViking fs write is disabled by policy. Set memory.openviking.fsWrite.enabled=true to enable.'')
          else if operation = Rm \<and> recursive = Some True \<and> \<not> allowRecursiveRm fw then
            Inl (Error ''OpenViking fs-rm --recursive is disabled by policy. Set memory.openviking.fsWrite.allowRecursiveRm=true to enable.'')
          else
            (case normalizePolicyUri uri ''uri'' of
               Inl e \<Rightarrow> Inl e
             | Inr u \<Rightarrow>
                 (case normalizePolicyRuleList (allowUriPrefixes fw)
                         ''memory.openviking.fsWrite.allowUriPrefixes'' of
                    Inl e \<Rightarrow> Inl e
                  | Inr allow \<Rightarrow>
                      if allow = [] then
                        Inl (Error ''OpenViking fs write policy requires memory.openviking.fsWrite.allowUriPrefixes to be configured.'')
                      else
                        (case normalizePolicyRuleList (denyUriPrefixes fw)
                                ''memory.openviking.fsWrite.denyUriPrefixes'' of
                           Inl e \<Rightarrow> Inl e
                         | Inr deny \<Rightarrow>
                             (case normalizePolicyRuleList (protectedUris fw)
                                     ''memory.openviking.fsWrite.protectedUris'' of
                                Inl e \<Rightarrow> Inl e
                              | Inr protected \<Rightarrow>
                                  if u \<in> set protected then
                                    Inl (Error (''OpenViking fs write denied for protected uri: '' @ u))
                                  else if list_ex (uriMatchesPrefix u) deny then
                                    Inl (Error (''OpenViking fs write denied by denyUriPrefixes: '' @ u))
                                  else if \<not> list_ex (uriMatchesPrefix u) allow then
                                    Inl (Error (''OpenViking fs write denied (uri not in allowUriPrefixes): '' @ u))
                                  else Inr u)))))"

definition mkdirOpenVikingFs :: "ResolvedMemoryBackendConfig \<Rightarrow> string \<Rightarrow> error + fs_request" where
  "mkdirOpenVikingFs cfg uri =
     (case resolveOpenVikingContext cfg of
        Inl e \<Rightarrow> Inl e
      | Inr resolved \<Rightarrow>
          (case enforceOpenVikingFsWritePolicy resolved uri Mkdir None of
             Inl e \<Rightarrow> Inl e
           | Inr u \<Rightarrow> Inr (FsMkdir u)))"

definition rmOpenVikingFs ::
  "ResolvedMemoryBackendConfig \<Rightarrow> string \<Rightarrow> bool option \<Rightarrow> error + fs_request" where
  "rmOpenVikingFs cfg uri recursive =
     (case resolveOpenVikingContext cfg of
        Inl e \<Rightarrow> Inl e
      | Inr resolved \<Rightarrow>
          (case enforceOpenVikingFsWritePolicy resolved uri Rm recursive of
             Inl e \<Rightarrow> Inl e
           | Inr u \<Rightarrow> Inr (FsRm u (recursive = Some True))))"



subsection \<open>The gate returns the normalised uri\<close>




section \<open>Store client (client.ts)\<close>

text \<open>Decimal digits of a number, as a template literal prints it.\<close>

fun showNat :: "nat \<Rightarrow> string" where
  "showNat n =
     (if n < 10 then [char_of (48 + n)]
      else showNat (n div 10) @ [char_of (48 + n mod 10)])"

text \<open>
  What \<open>fetch\<close> resolves to, as far as \<open>request\<close> reads it. \<open>response.ok\<close> is the Fetch
  standard's: the status is in the range 200 to 299.
\<close>

record HttpResponse =
  resp_status :: nat
  resp_statusText :: string
  resp_text :: string

definition resp_ok :: "HttpResponse \<Rightarrow> bool" where
  "resp_ok response = (200 \<le> resp_status response \<and> resp_status response \<le> 299)"

text \<open>Property access on a parsed payload: only an object has own properties here.\<close>

fun property :: "json \<Rightarrow> string \<Rightarrow> json option" where
  "property (JObj props) name = map_of props name"
| "property _ name = None"

text \<open>\<open>v ?? d\<close> sees null and undefined as missing.\<close>

fun nullish :: "json option \<Rightarrow> bool" where
  "nullish None = True"
| "nullish (Some JNull) = True"
| "nullish _ = False"

text \<open>\<open>!payload\<close> for a payload that is null (nothing parsed) or any parsed JSON value.\<close>

fun falsy :: "json option \<Rightarrow> bool" where
  "falsy None = True"
| "falsy (Some JNull) = True"
| "falsy (Some (JBool b)) = (\<not> b)"
| "falsy (Some (JNum x)) = (x = Finite 0 \<or> x = NaN)"
| "falsy (Some (JStr s)) = (s = [])"
| "falsy (Some _) = False"

text \<open>\<open>payload?.error?.message\<close>.\<close>

definition errorMessage :: "json option \<Rightarrow> json option" where
  "errorMessage payload =
     (case payload of
        None \<Rightarrow> None
      | Some v \<Rightarrow>
          (if nullish (property v ''error'') then None
           else
             (case property v ''error'' of
                None \<Rightarrow> None
              | Some err \<Rightarrow> property err ''message'')))"

text \<open>
  A value inside a template literal: a string prints as itself, anything else as the host's
  \<open>String(v)\<close>, which is a parameter here.
\<close>

fun inTemplate :: "(json \<Rightarrow> string) \<Rightarrow> json \<Rightarrow> string" where
  "inTemplate str (JStr s) = s"
| "inTemplate str v = str v"

text \<open>
  \<open>OpenVikingClient.request\<close>, given what \<open>fetch\<close> gave (it throws on a network failure or on
  the timeout's abort) and the host's \<open>JSON.parse\<close>, whose error stands for \<open>String(err)\<close>.
  The result is \<open>payload.result ?? {}\<close>.
\<close>

definition request ::
  "(string \<Rightarrow> error + json) \<Rightarrow> (json \<Rightarrow> string) \<Rightarrow> error + HttpResponse \<Rightarrow> error + json" where
  "request parseJson str fetched =
     (case fetched of
        Inl e \<Rightarrow> Inl e
      | Inr response \<Rightarrow>
          (let text = resp_text response in
           case (if trim text \<noteq> [] then
                   (case parseJson text of
                      Inl (Error m) \<Rightarrow>
                        Inl (Error (''openviking response is not valid JSON ('' @ m @ '')''))
                    | Inr v \<Rightarrow> Inr (Some v))
                 else Inr None) of
             Inl e \<Rightarrow> Inl e
           | Inr payload \<Rightarrow>
               if \<not> resp_ok response then
                 Inl (Error (''openviking request failed ('' @ showNat (resp_status response) @ ''): ''
                        @ (if nullish (errorMessage payload) then
                             (if text \<noteq> [] then text else resp_statusText response)
                           else inTemplate str (the (errorMessage payload)))))
               else if falsy payload \<or> property (the payload) ''status'' \<noteq> Some (JStr ''ok'') then
                 Inl (Error (''openviking returned error: ''
                        @ (if nullish (errorMessage payload) then ''unknown error''
                           else inTemplate str (the (errorMessage payload)))))
               else if nullish (property (the payload) ''result'') then Inr (JObj [])
               else Inr (the (property (the payload) ''result''))))"

subsection \<open>Claim about the store client\<close>

text \<open>
  Claim C5 as stated fails: a 200 response with an empty body makes \<open>request\<close> throw
  \<open>openviking returned error: unknown error\<close>.
\<close>

theorem empty_body_2xx_throws:
  "request (\<lambda>text. Inl (Error ''SyntaxError: Unexpected end of JSON input'')) (\<lambda>v. [])
     (Inr \<lparr>resp_status = 200, resp_statusText = ''OK'', resp_text = []\<rparr>) =
     Inl (Error ''openviking returned error: unknown error'')"
  by (simp add: request_def resp_ok_def trim_def errorMessage_def)

text \<open>
  Claim C5, as amended. A 2xx response whose body is empty, or white space only, is not parsed and
  the call throws \<open>openviking returned error: unknown error\<close>. The empty result \<open>{}\<close> is what
  a 2xx response gives whose body parses to an envelope with status \<open>ok\<close> and no result.
\<close>

theorem empty_body_2xx_is_unknown_error:
  assumes "resp_ok response"
  shows "(trim (resp_text response) = [] \<longrightarrow>
            request parseJson str (Inr response) =
              Inl (Error ''openviking returned error: unknown error''))
    \<and> (trim (resp_text response) \<noteq> []
         \<and> parseJson (resp_text response) = Inr (JObj props)
         \<and> map_of props ''status'' = Some (JStr ''ok'')
         \<and> nullish (map_of props ''result'') \<longrightarrow>
            request parseJson str (Inr response) = Inr (JObj []))"
  using assms by (simp add: request_def errorMessage_def Let_def)

theorem empty_body_2xx_is_unknown_error_witness:
  "resp_ok \<lparr>resp_status = 204, resp_statusText = ''No Content'', resp_text = '' ''\<rparr>
   \<and> trim '' '' = []
   \<and> request (\<lambda>text. Inr JNull) (\<lambda>v. [])
        (Inr \<lparr>resp_status = 204, resp_statusText = ''No Content'', resp_text = '' ''\<rparr>) =
        Inl (Error ''openviking returned error: unknown error'')
   \<and> request (\<lambda>text. Inr (JObj [(''status'', JStr ''ok'')])) (\<lambda>v. [])
        (Inr \<lparr>resp_status = 204, resp_statusText = ''No Content'', resp_text = ''{}''\<rparr>) =
        Inr (JObj [])"
proof -
  have ok: "resp_ok \<lparr>resp_status = 204, resp_statusText = t, resp_text = b\<rparr>" for t b
    by (simp add: resp_ok_def)
  have t: "trim '' '' = []" "trim ''{}'' \<noteq> []" by (simp_all add: trim_def js_whitespace_def)
  from empty_body_2xx_is_unknown_error[OF ok,
         where parseJson = "\<lambda>text. Inr JNull" and str = "\<lambda>v. []",
         of "''No Content''" "'' ''"]
    empty_body_2xx_is_unknown_error[OF ok,
         where parseJson = "\<lambda>text. Inr (JObj [(''status'', JStr ''ok'')])" and str = "\<lambda>v. []"
           and props = "[(''status'', JStr ''ok'')]",
         of "''No Content''" "''{}''"]
    ok t
  show ?thesis by simp
qed

section \<open>Reading a file through the manager (manager.ts)\<close>

definition normalizeUri :: "string \<Rightarrow> error + string" where
  "normalizeUri input =
     (let trimmed = trim input in
      if trimmed = [] then Inl (Error ''path required'')
      else if startsWith trimmed ''viking://'' then Inr trimmed
      else if startsWith trimmed ''/'' then Inr (''viking://resource'' @ trimmed)
      else Inr (''viking://resource/''
                @ (if startsWith trimmed ''./'' then drop 2 trimmed
                   else if startsWith trimmed ''/'' then drop 1 trimmed
                   else trimmed)))"

text \<open>\<open>text.split("\n")\<close> and \<open>lines.join("\n")\<close>.\<close>

fun splitLines :: "string \<Rightarrow> string list" where
  "splitLines [] = [[]]"
| "splitLines (c # cs) =
     (if c = CHR 0x0A then [] # splitLines cs
      else (case splitLines cs of
              [] \<Rightarrow> [[c]]
            | l # ls \<Rightarrow> (c # l) # ls))"

fun joinLines :: "string list \<Rightarrow> string" where
  "joinLines [] = []"
| "joinLines [l] = l"
| "joinLines (l # ls) = l @ [CHR 0x0A] @ joinLines ls"

record ReadFileResult =
  rf_text :: string
  rf_path :: string

text \<open>
  \<open>readFile\<close>, given the client's \<open>read\<close>. \<open>from\<close> and \<open>lines\<close> are whole numbers when
  given; \<open>!params.from\<close> holds for an absent and for a zero \<open>from\<close>.
\<close>

definition readFile ::
  "(string \<Rightarrow> error + string) \<Rightarrow> string \<Rightarrow> int option \<Rightarrow> int option \<Rightarrow> error + ReadFileResult" where
  "readFile read relPath from lines =
     (case normalizeUri relPath of
        Inl e \<Rightarrow> Inl e
      | Inr uri \<Rightarrow>
          (case read uri of
             Inl e \<Rightarrow> Inl e
           | Inr text \<Rightarrow>
               if (from = None \<or> from = Some 0) \<and> (lines = None \<or> lines = Some 0) then
                 Inr \<lparr>rf_text = text, rf_path = uri\<rparr>
               else
                 (let allLines = splitLines text;
                      start = max 1 (case from of None \<Rightarrow> 1 | Some f \<Rightarrow> f);
                      count = max 1 (case lines of None \<Rightarrow> int (length allLines) | Some n \<Rightarrow> n);
                      slice = take (nat count) (drop (nat (start - 1)) allLines)
                  in Inr \<lparr>rf_text = joinLines slice, rf_path = uri\<rparr>)))"

subsection \<open>Splitting and joining lines\<close>

lemma splitLines_nonempty: "splitLines s \<noteq> []"
  by (induction s) (auto split: list.splits)

lemma splitLines_no_newline: "l \<in> set (splitLines s) \<Longrightarrow> CHR 0x0A \<notin> set l"
  by (induction s arbitrary: l) (auto split: if_splits list.splits)

lemma splitLines_append_line:
  "CHR 0x0A \<notin> set l \<Longrightarrow> splitLines (l @ CHR 0x0A # s) = l # splitLines s"
  by (induction l) auto

lemma splitLines_single: "CHR 0x0A \<notin> set l \<Longrightarrow> splitLines l = [l]"
  by (induction l) auto

lemma splitLines_joinLines:
  "ls \<noteq> [] \<Longrightarrow> \<forall>l\<in>set ls. CHR 0x0A \<notin> set l \<Longrightarrow> splitLines (joinLines ls) = ls"
proof (induction ls rule: joinLines.induct)
  case 1
  then show ?case by simp
next
  case (2 l)
  then show ?case by (simp add: splitLines_single)
next
  case (3 l v va)
  then show ?case by (simp add: splitLines_append_line)
qed

subsection \<open>Claim about \<open>readFile\<close>\<close>

text \<open>
  Claim C9 as stated fails on a path with white space after it: \<open>normalizeUri\<close> trims, so the
  path that comes back is not the one that went in.
\<close>

theorem readFile_trims_viking_path:
  "startsWith ''viking://docs/a '' ''viking://''
   \<and> readFile (\<lambda>uri. Inr ''x'') ''viking://docs/a '' None None =
       Inr \<lparr>rf_text = ''x'', rf_path = ''viking://docs/a''\<rparr>
   \<and> ''viking://docs/a'' \<noteq> ''viking://docs/a ''"
  by (simp add: readFile_def normalizeUri_def trim_def js_whitespace_def startsWith_def)

text \<open>
  Claim C9, as amended. When the read succeeds, the result path is the trimmed input if that
  starts with \<open>viking://\<close> (so an input of that form with no white space around it comes back
  unchanged), and \<open>viking://resource\<close> followed by the trimmed input if that starts with \<open>/\<close>.
  With \<open>from \<ge> 1\<close> and \<open>lines \<ge> 1\<close> and at least \<open>from + lines - 1\<close> lines in the content,
  the text that comes back splits into exactly \<open>lines\<close> lines, those from line \<open>from\<close> on.
\<close>

theorem readFile_path_and_slice:
  assumes "normalizeUri relPath = Inr uri" and "read uri = Inr text"
  shows "(startsWith (trim relPath) ''viking://'' \<longrightarrow> uri = trim relPath)
    \<and> (startsWith (trim relPath) ''/'' \<longrightarrow> uri = ''viking://resource'' @ trim relPath)
    \<and> (\<exists>t. readFile read relPath from lines = Inr \<lparr>rf_text = t, rf_path = uri\<rparr>)
    \<and> (\<forall>f n. from = Some f \<and> lines = Some n \<and> 1 \<le> f \<and> 1 \<le> n
                \<and> f + n - 1 \<le> int (length (splitLines text)) \<longrightarrow>
          (\<exists>t. readFile read relPath from lines = Inr \<lparr>rf_text = t, rf_path = uri\<rparr>
              \<and> splitLines t = take (nat n) (drop (nat (f - 1)) (splitLines text))
              \<and> length (splitLines t) = nat n))"
proof -
  have path1: "startsWith (trim relPath) ''viking://'' \<longrightarrow> uri = trim relPath"
    using assms(1) by (auto simp: normalizeUri_def Let_def split: if_splits)
  have path2: "startsWith (trim relPath) ''/'' \<longrightarrow> uri = ''viking://resource'' @ trim relPath"
    using assms(1) by (auto simp: normalizeUri_def Let_def startsWith_def prefix_def split: if_splits)
  have ret: "\<exists>t. readFile read relPath from lines = Inr \<lparr>rf_text = t, rf_path = uri\<rparr>"
    using assms by (simp add: readFile_def Let_def)
  have slice: "\<exists>t. readFile read relPath from lines = Inr \<lparr>rf_text = t, rf_path = uri\<rparr>
              \<and> splitLines t = take (nat n) (drop (nat (f - 1)) (splitLines text))
              \<and> length (splitLines t) = nat n"
    if h: "from = Some f" "lines = Some n" "1 \<le> f" "1 \<le> n"
      "f + n - 1 \<le> int (length (splitLines text))" for f n
  proof -
    let ?slice = "take (nat n) (drop (nat (f - 1)) (splitLines text))"
    have len: "length ?slice = nat n" using h by auto
    then have ne: "?slice \<noteq> []" using h(4) by auto
    have nl: "\<forall>l\<in>set ?slice. CHR 0x0A \<notin> set l"
      by (meson in_set_dropD in_set_takeD splitLines_no_newline)
    have r: "readFile read relPath from lines = Inr \<lparr>rf_text = joinLines ?slice, rf_path = uri\<rparr>"
      using assms h by (simp add: readFile_def Let_def max_def)
    show ?thesis
      using r len splitLines_joinLines[OF ne nl] by simp
  qed
  from path1 path2 ret slice show ?thesis by blast
qed

theorem readFile_path_and_slice_witness:
  "normalizeUri ''/abs/path'' = Inr ''viking://resource/abs/path''
   \<and> normalizeUri ''viking://docs/a'' = Inr ''viking://docs/a''
   \<and> splitLines ''one\<newline>two\<newline>three\<newline>four'' = [''one'', ''two'', ''three'', ''four'']
   \<and> (\<exists>t. readFile (\<lambda>uri. Inr ''one\<newline>two\<newline>three\<newline>four'') ''/abs/path'' (Some 2) (Some 2) =
              Inr \<lparr>rf_text = t, rf_path = ''viking://resource/abs/path''\<rparr>
            \<and> splitLines t = [''two'', ''three''])"
proof -
  let ?text = "''one\<newline>two\<newline>three\<newline>four''"
  have n1: "normalizeUri ''/abs/path'' = Inr ''viking://resource/abs/path''"
    by (simp add: normalizeUri_def trim_def js_whitespace_def startsWith_def)
  have n2: "normalizeUri ''viking://docs/a'' = Inr ''viking://docs/a''"
    by (simp add: normalizeUri_def trim_def js_whitespace_def startsWith_def)
  have s: "splitLines ?text = [''one'', ''two'', ''three'', ''four'']" by simp
  have r: "(\<lambda>uri. Inr ?text) ''viking://resource/abs/path'' = (Inr ?text :: error + string)" by simp
  from readFile_path_and_slice[OF n1 r, of "Some 2" "Some 2"] s
  have "\<exists>t. readFile (\<lambda>uri. Inr ?text) ''/abs/path'' (Some 2) (Some 2) =
              Inr \<lparr>rf_text = t, rf_path = ''viking://resource/abs/path''\<rparr>
            \<and> splitLines t = [''two'', ''three'']"
    by (auto simp: numeral_2_eq_2)
  with n1 n2 s show ?thesis by simp
qed

section \<open>Retrieval planner (manager.ts)\<close>

datatype OpenVikingContextKind = Memory | Resource | Skill

datatype PlannerSource = NoSignals | Query_plan | Query_results | Combined

record OpenVikingPlannerSignals =
  source :: PlannerSource
  memory :: int
  resource :: int
  skill :: int

record OpenVikingSearchDecision =
  decision_strategy :: OpenVikingSearchStrategy
  decision_reason :: string
  decision_priority :: OpenVikingContextKind
  decision_includeResources :: bool
  decision_includeSkills :: bool

text \<open>\<open>toLowerCase\<close> on the code units a \<open>char\<close> can hold: A to Z, and the Latin-1 capitals.\<close>

definition lowerChar :: "char \<Rightarrow> char" where
  "lowerChar c =
     (let n = (of_char c :: nat) in
      if (65 \<le> n \<and> n \<le> 90) \<or> (192 \<le> n \<and> n \<le> 222 \<and> n \<noteq> 215) then char_of (n + 32) else c)"

definition toLowerCase :: "string \<Rightarrow> string" where
  "toLowerCase s = map lowerChar s"

fun jsonString :: "json option \<Rightarrow> string option" where
  "jsonString (Some (JStr s)) = Some s"
| "jsonString _ = None"

definition normalizeContextKind :: "json option \<Rightarrow> OpenVikingContextKind option" where
  "normalizeContextKind v =
     (case jsonString v of
        None \<Rightarrow> None
      | Some s \<Rightarrow>
          (let normalized = toLowerCase (trim s) in
           if normalized = [] then None
           else if normalized = ''memory'' \<or> normalized = ''memories'' then Some Memory
           else if normalized = ''resource'' \<or> normalized = ''resources'' then Some Resource
           else if normalized = ''skill'' \<or> normalized = ''skills'' then Some Skill
           else None))"

text \<open>
  \<open>normalizePriorityWeight\<close>: only a finite number passes the guard
  \<open>typeof priority !== "number" || !Number.isFinite(priority)\<close>.
\<close>

fun normalizePriorityWeight :: "json option \<Rightarrow> int" where
  "normalizePriorityWeight (Some (JNum (Finite priority))) =
     (let normalized = max 1 \<lfloor>priority\<rfloor> in
      if normalized \<le> 1 then 5
      else if normalized = 2 then 4
      else if normalized = 3 then 3
      else if normalized = 4 then 2
      else 1)"
| "normalizePriorityWeight _ = 2"

fun jsonArray :: "json option \<Rightarrow> json list option" where
  "jsonArray (Some (JArr xs)) = Some xs"
| "jsonArray _ = None"

definition addSignal :: "OpenVikingContextKind \<Rightarrow> int \<Rightarrow> OpenVikingPlannerSignals \<Rightarrow> OpenVikingPlannerSignals" where
  "addSignal kind weight signals =
     (case kind of
        Memory \<Rightarrow> signals\<lparr>memory := memory signals + weight\<rparr>
      | Resource \<Rightarrow> signals\<lparr>resource := resource signals + weight\<rparr>
      | Skill \<Rightarrow> signals\<lparr>skill := skill signals + weight\<rparr>)"

text \<open>
  One round of each loop of \<open>resolvePlannerSignals\<close>: the kind and the weight an entry adds, or
  nothing when the loop says \<open>continue\<close>.
\<close>

definition planQuerySignal :: "json \<Rightarrow> (OpenVikingContextKind \<times> int) option" where
  "planQuerySignal entry =
     (case asRecord (Some entry) of
        None \<Rightarrow> None
      | Some row \<Rightarrow>
          (case normalizeContextKind (map_of row ''context_type'') of
             None \<Rightarrow> None
           | Some kind \<Rightarrow> Some (kind, normalizePriorityWeight (map_of row ''priority''))))"

definition queryResultSignal :: "json \<Rightarrow> (OpenVikingContextKind \<times> int) option" where
  "queryResultSignal entry =
     (case asRecord (Some entry) of
        None \<Rightarrow> None
      | Some row \<Rightarrow>
          (let rowQuery = asRecord (map_of row ''query'');
               fromQuery = (case rowQuery of None \<Rightarrow> None | Some q \<Rightarrow> map_of q ''context_type'')
           in
           case normalizeContextKind
                  (if nullish fromQuery then map_of row ''context_type'' else fromQuery) of
             None \<Rightarrow> None
           | Some kind \<Rightarrow>
               (let matchedContexts =
                      (case jsonArray (map_of row ''matched_contexts'') of
                         None \<Rightarrow> 0
                       | Some xs \<Rightarrow> int (length xs))
                in Some (kind, if matchedContexts > 0 then min 5 matchedContexts else 1))))"

text \<open>The loop state: the signals and the flag the loop sets (\<open>usedPlan\<close>, \<open>usedQueryResults\<close>).\<close>

fun signalLoop ::
  "(json \<Rightarrow> (OpenVikingContextKind \<times> int) option) \<Rightarrow> json list
     \<Rightarrow> OpenVikingPlannerSignals \<times> bool \<Rightarrow> OpenVikingPlannerSignals \<times> bool" where
  "signalLoop step [] state = state"
| "signalLoop step (entry # entries) (signals, used) =
     (case step entry of
        None \<Rightarrow> signalLoop step entries (signals, used)
      | Some (kind, weight) \<Rightarrow> signalLoop step entries (addSignal kind weight signals, True))"

definition resolvePlannerSignals ::
  "(string \<times> json) list option \<Rightarrow> json list option \<Rightarrow> OpenVikingPlannerSignals" where
  "resolvePlannerSignals plan queryResults =
     (let signals0 = \<lparr>source = NoSignals, memory = 0, resource = 0, skill = 0\<rparr>;
          planQueries = (case plan of None \<Rightarrow> None | Some p \<Rightarrow> jsonArray (map_of p ''queries''));
          (signals1, usedPlan) =
            (case planQueries of
               None \<Rightarrow> (signals0, False)
             | Some entries \<Rightarrow> signalLoop planQuerySignal entries (signals0, False));
          (signals2, usedQueryResults) =
            (case queryResults of
               None \<Rightarrow> (signals1, False)
             | Some entries \<Rightarrow> signalLoop queryResultSignal entries (signals1, False))
      in
      if usedPlan \<and> usedQueryResults then signals2\<lparr>source := Combined\<rparr>
      else if usedPlan then signals2\<lparr>source := Query_plan\<rparr>
      else if usedQueryResults then signals2\<lparr>source := Query_results\<rparr>
      else signals2)"

text \<open>
  \<open>resolvePlannerPriority\<close>: the three totals sorted by descending score (\<open>toSorted\<close> is
  stable, as \<open>sort_key\<close> is), then the first two compared.
\<close>

definition resolvePlannerPriority :: "OpenVikingPlannerSignals \<Rightarrow> OpenVikingContextKind option" where
  "resolvePlannerPriority signals =
     (case sort_key (\<lambda>entry. - snd entry)
             [(Memory, memory signals), (Resource, resource signals), (Skill, skill signals)] of
        best # second # rest \<Rightarrow>
          if snd best \<le> 0 then None
          else if snd second = snd best then None
          else Some (fst best)
      | _ \<Rightarrow> None)"

definition RESOURCE_SIGNALS :: "string list" where
  "RESOURCE_SIGNALS =
     [''file'', ''files'', ''path'', ''paths'', ''readme'', ''markdown'', ''md'', ''resource'',
      ''resources'', ''code'', ''config'', ''api'', ''document'', ''docs'']"

definition SKILL_SIGNALS :: "string list" where
  "SKILL_SIGNALS =
     [''how'', ''plan'', ''steps'', ''workflow'', ''playbook'', ''guide'', ''guidance'',
      ''best practice'', ''template'', ''skill'', ''skills'', ''strategy'', ''process'']"

text \<open>\<open>split(/[^a-z0-9_]+/)\<close>: the maximal runs of token characters.\<close>

definition isTokenChar :: "char \<Rightarrow> bool" where
  "isTokenChar c =
     (let n = (of_char c :: nat) in
      (97 \<le> n \<and> n \<le> 122) \<or> (48 \<le> n \<and> n \<le> 57) \<or> n = 95)"

fun splitTokens :: "string \<Rightarrow> string \<Rightarrow> string list" where
  "splitTokens [] cur = [rev cur]"
| "splitTokens (c # cs) cur =
     (if isTokenChar c then splitTokens cs (c # cur)
      else if cs \<noteq> [] \<and> \<not> isTokenChar (hd cs) then splitTokens cs cur
      else rev cur # splitTokens cs [])"

definition buildSignalTokenSet :: "string \<Rightarrow> string list" where
  "buildSignalTokenSet query =
     filter (\<lambda>token. token \<noteq> []) (map trim (splitTokens (toLowerCase query) []))"

text \<open>\<open>query.includes(signal)\<close>: the signal occurs somewhere in the query.\<close>

fun includesStr :: "string \<Rightarrow> string \<Rightarrow> bool" where
  "includesStr [] signal = (signal = [])"
| "includesStr (c # cs) signal = (prefix signal (c # cs) \<or> includesStr cs signal)"

definition countSignalHits :: "string \<Rightarrow> string list \<Rightarrow> nat" where
  "countSignalHits query signals =
     (let tokenSet = buildSignalTokenSet query in
      fold (\<lambda>signal count.
              if CHR '' '' \<in> set signal then (if includesStr query signal then count + 1 else count)
              else (if signal \<in> set tokenSet then count + 1 else count))
        signals 0)"

definition resolveSearchDecision ::
  "OpenVikingSearchStrategy \<Rightarrow> bool \<Rightarrow> bool \<Rightarrow> string \<Rightarrow> string option
     \<Rightarrow> (string \<times> json) list option \<Rightarrow> json list option \<Rightarrow> OpenVikingSearchDecision" where
  "resolveSearchDecision strat incResources incSkills query sessionKey plan queryResults =
     (if strat = Memory_first then
        \<lparr>decision_strategy = strat, decision_reason = ''configured-memory-first'',
         decision_priority = Memory, decision_includeResources = incResources,
         decision_includeSkills = incSkills\<rparr>
      else if strat = Resource_first then
        \<lparr>decision_strategy = strat, decision_reason = ''configured-resource-first'',
         decision_priority = Resource, decision_includeResources = True,
         decision_includeSkills = incSkills\<rparr>
      else if strat = Skill_first then
        \<lparr>decision_strategy = strat, decision_reason = ''configured-skill-first'',
         decision_priority = Skill, decision_includeResources = incResources,
         decision_includeSkills = True\<rparr>
      else
        (let normalized = toLowerCase query;
             resourceHits = countSignalHits normalized RESOURCE_SIGNALS;
             skillHits = countSignalHits normalized SKILL_SIGNALS;
             plannerSignals = resolvePlannerSignals plan queryResults;
             plannerPriority = resolvePlannerPriority plannerSignals;
             hasSessionKey = (case sessionKey of None \<Rightarrow> False | Some k \<Rightarrow> trim k \<noteq> []);
             includeRes = (incResources \<or> resourceHits > 0 \<or> resource plannerSignals > 0);
             includeSk = (incSkills \<or> skillHits > 0 \<or> skill plannerSignals > 0)
         in
         case plannerPriority of
           Some kind \<Rightarrow>
             \<lparr>decision_strategy = Auto,
              decision_reason =
                (if source plannerSignals = Query_plan then
                   (if hasSessionKey then ''auto-planner-plan-session'' else ''auto-planner-plan'')
                 else if source plannerSignals = Query_results then
                   (if hasSessionKey then ''auto-planner-results-session'' else ''auto-planner-results'')
                 else
                   (if hasSessionKey then ''auto-planner-combined-session'' else ''auto-planner-combined'')),
              decision_priority = kind, decision_includeResources = includeRes,
              decision_includeSkills = includeSk\<rparr>
         | None \<Rightarrow>
             if resourceHits > skillHits then
               \<lparr>decision_strategy = Auto,
                decision_reason =
                  (if hasSessionKey then ''auto-resource-signals-session'' else ''auto-resource-signals''),
                decision_priority = Resource, decision_includeResources = includeRes,
                decision_includeSkills = includeSk\<rparr>
             else if skillHits > resourceHits then
               \<lparr>decision_strategy = Auto,
                decision_reason =
                  (if hasSessionKey then ''auto-skill-signals-session'' else ''auto-skill-signals''),
                decision_priority = Skill, decision_includeResources = includeRes,
                decision_includeSkills = includeSk\<rparr>
             else if resourceHits > 0 \<and> skillHits > 0 then
               \<lparr>decision_strategy = Auto, decision_reason = ''auto-mixed-signals'',
                decision_priority = Resource, decision_includeResources = includeRes,
                decision_includeSkills = includeSk\<rparr>
             else
               \<lparr>decision_strategy = Auto,
                decision_reason = (if hasSessionKey then ''auto-session-memory'' else ''auto-memory''),
                decision_priority = Memory, decision_includeResources = includeRes,
                decision_includeSkills = includeSk\<rparr>))"

subsection \<open>The planner signals, declaratively\<close>












subsection \<open>The loops add up the signals\<close>


lemma source_addSignal [simp]: "source (addSignal kind weight signals) = source signals"
  by (cases kind) (simp_all add: addSignal_def)





subsection \<open>Claim about the planner\<close>




section \<open>Outbox (outbox.ts)\<close>

record OpenVikingOutboxItem =
  item_id :: string
  createdAt :: int
  updatedAt :: int
  attempts :: int
  nextAttemptAt :: int
  item_sessionKey :: string
  item_sessionId :: string
  item_events :: "OpenVikingSessionEvent list"

text \<open>
  The outbox instance and its file. The file is the list of its lines: a line that parses to an
  item, or one that does not.
\<close>

datatype outbox_line = ItemLine OpenVikingOutboxItem | MalformedLine

record OpenVikingOutbox =
  ob_maxBatchSize :: int
  ob_retryBaseMs :: int
  ob_retryMaxMs :: int
  loaded :: bool
  flushing :: bool
  items :: "OpenVikingOutboxItem list"
  disk :: "outbox_line list"
  lastFlushAt :: "int option"
  lastEnqueueAt :: "int option"
  lastSuccessAt :: "int option"
  lastFlushSent :: int
  lastFlushErrors :: int
  totalEnqueued :: int
  totalSent :: int
  totalFailed :: int
  lastError :: "string option"

text \<open>The constructor clamps its parameters.\<close>

definition newOutbox :: "ResolvedOpenVikingOutboxConfig \<Rightarrow> outbox_line list \<Rightarrow> OpenVikingOutbox" where
  "newOutbox params file =
     \<lparr>ob_maxBatchSize = max 1 (maxBatchSize params),
      ob_retryBaseMs = max 250 (retryBaseMs params),
      ob_retryMaxMs = max (max 250 (retryBaseMs params)) (retryMaxMs params),
      loaded = False, flushing = False, items = [], disk = file,
      lastFlushAt = None, lastEnqueueAt = None, lastSuccessAt = None,
      lastFlushSent = 0, lastFlushErrors = 0, totalEnqueued = 0, totalSent = 0, totalFailed = 0,
      lastError = None\<rparr>"

text \<open>
  \<open>load\<close>, once per instance: the lines that parse to an item with an id and a session id are
  the queue; the others are skipped.
\<close>

fun parseLines :: "outbox_line list \<Rightarrow> OpenVikingOutboxItem list" where
  "parseLines [] = []"
| "parseLines (MalformedLine # ls) = parseLines ls"
| "parseLines (ItemLine item # ls) =
     (if item_id item = [] \<or> item_sessionId item = [] then parseLines ls
      else item # parseLines ls)"

definition load :: "OpenVikingOutbox \<Rightarrow> OpenVikingOutbox" where
  "load ob =
     (if loaded ob then ob
      else
        (let parsed = parseLines (disk ob) in
         ob\<lparr>loaded := True, items := parsed,
            totalEnqueued := (if totalEnqueued ob < int (length parsed) then int (length parsed)
                              else totalEnqueued ob)\<rparr>))"

definition persist :: "OpenVikingOutbox \<Rightarrow> OpenVikingOutbox" where
  "persist ob = ob\<lparr>disk := map ItemLine (items ob)\<rparr>"

text \<open>\<open>enqueue\<close>, with the clock reading and the fresh UUID it takes; it returns the depth.\<close>

definition enqueue ::
  "int \<Rightarrow> string \<Rightarrow> string \<Rightarrow> string \<Rightarrow> OpenVikingSessionEvent list \<Rightarrow> OpenVikingOutbox
     \<Rightarrow> int \<times> OpenVikingOutbox" where
  "enqueue now uuid sessionKey sessionId events ob =
     (if events = [] then (int (length (items ob)), ob)
      else
        (let ob1 = load ob;
             item = \<lparr>item_id = uuid, createdAt = now, updatedAt = now, attempts = 0,
                     nextAttemptAt = now, item_sessionKey = sessionKey, item_sessionId = sessionId,
                     item_events = events\<rparr>;
             ob2 = persist (ob1\<lparr>items := items ob1 @ [item], lastEnqueueAt := Some now,
                                 totalEnqueued := totalEnqueued ob1 + 1\<rparr>)
         in (int (length (items ob2)), ob2)))"

text \<open>
  The sender, as the flush sees it: whether the call with a given number within this flush, for
  a given payload, returns or throws.
\<close>

type_synonym sender = "nat \<Rightarrow> string \<Rightarrow> OpenVikingSessionEvent list \<Rightarrow> error + unit"

record FlushProgress =
  fp_items :: "OpenVikingOutboxItem list"
  fp_delivered :: "OpenVikingOutboxItem list"
  fp_sent :: nat
  fp_errors :: nat
  fp_lastError :: "string option"

text \<open>
  The loop of \<open>flush\<close> over the queue. \<open>fp_items\<close> collects the items as the loop leaves them
  (a delivered item is marked with \<open>attempts = -1\<close>), \<open>fp_delivered\<close> the items the sender took,
  in the order it took them.
\<close>

fun flushLoop ::
  "OpenVikingOutbox \<Rightarrow> int \<Rightarrow> sender \<Rightarrow> OpenVikingOutboxItem list \<Rightarrow> FlushProgress \<Rightarrow> FlushProgress" where
  "flushLoop ob now send [] fp = fp"
| "flushLoop ob now send (item # rest) fp =
     (if int (fp_sent fp) \<ge> ob_maxBatchSize ob then fp\<lparr>fp_items := fp_items fp @ item # rest\<rparr>
      else if nextAttemptAt item > now then
        flushLoop ob now send rest (fp\<lparr>fp_items := fp_items fp @ [item]\<rparr>)
      else
        (case send (fp_sent fp + fp_errors fp) (item_sessionId item) (item_events item) of
           Inr u \<Rightarrow>
             flushLoop ob now send rest
               (fp\<lparr>fp_items := fp_items fp @ [item\<lparr>attempts := - 1\<rparr>],
                   fp_delivered := fp_delivered fp @ [item],
                   fp_sent := fp_sent fp + 1\<rparr>)
         | Inl (Error message) \<Rightarrow>
             (let n = attempts item + 1;
                  retryDelay = min (ob_retryMaxMs ob) (ob_retryBaseMs ob * 2 ^ nat (max 0 (n - 1)))
              in flushLoop ob now send rest
                   (fp\<lparr>fp_items := fp_items fp
                          @ [item\<lparr>attempts := n, updatedAt := now, nextAttemptAt := now + retryDelay\<rparr>],
                       fp_errors := fp_errors fp + 1,
                       fp_lastError := Some message\<rparr>))))"

text \<open>\<open>flush\<close> returns nothing; the model returns the items this flush delivered, in order.\<close>

definition flush :: "int \<Rightarrow> sender \<Rightarrow> OpenVikingOutbox \<Rightarrow> OpenVikingOutboxItem list \<times> OpenVikingOutbox" where
  "flush now send ob =
     (if flushing ob then ([], ob)
      else
        (let ob1 = (load ob)\<lparr>flushing := True\<rparr>;
             fp = flushLoop ob1 now send (items ob1)
                    \<lparr>fp_items = [], fp_delivered = [], fp_sent = 0, fp_errors = 0,
                     fp_lastError = lastError ob1\<rparr>;
             ob2 = ob1\<lparr>items := fp_items fp, lastError := fp_lastError fp,
                       totalFailed := totalFailed ob1 + int (fp_errors fp)\<rparr>;
             ob3 = (if fp_sent fp > 0 then
                      ob2\<lparr>items := filter (\<lambda>item. attempts item \<ge> 0) (items ob2),
                          totalSent := totalSent ob2 + int (fp_sent fp),
                          lastSuccessAt := Some now\<rparr>
                    else ob2);
             ob4 = ob3\<lparr>lastFlushAt := Some now, lastFlushSent := int (fp_sent fp),
                       lastFlushErrors := int (fp_errors fp)\<rparr>;
             ob5 = (if fp_sent fp > 0 \<and> fp_errors fp = 0 then ob4\<lparr>lastError := None\<rparr> else ob4)
         in (fp_delivered fp, (persist ob5)\<lparr>flushing := False\<rparr>)))"

text \<open>A sequence of operations on one outbox, each with its clock reading.\<close>

datatype outbox_op =
    Enqueue int string string string "OpenVikingSessionEvent list"
  | Flush int sender

text \<open>The run returns what each flush delivered, flush by flush.\<close>

fun runOutbox ::
  "outbox_op list \<Rightarrow> OpenVikingOutbox \<Rightarrow> OpenVikingOutboxItem list list \<times> OpenVikingOutbox" where
  "runOutbox [] ob = ([], ob)"
| "runOutbox (Enqueue now uuid sessionKey sessionId events # ops) ob =
     runOutbox ops (snd (enqueue now uuid sessionKey sessionId events ob))"
| "runOutbox (Flush now send # ops) ob =
     (case flush now send ob of
        (batch, ob1) \<Rightarrow> (case runOutbox ops ob1 of (batches, ob2) \<Rightarrow> (batch # batches, ob2)))"

text \<open>The ids in the order of their enqueue; an enqueue without events queues nothing.\<close>

fun enqueuedIds :: "outbox_op list \<Rightarrow> string list" where
  "enqueuedIds [] = []"
| "enqueuedIds (Enqueue now uuid sessionKey sessionId events # ops) =
     (if events = [] then enqueuedIds ops else uuid # enqueuedIds ops)"
| "enqueuedIds (Flush now send # ops) = enqueuedIds ops"

fun opTime :: "outbox_op \<Rightarrow> int" where
  "opTime (Enqueue now uuid sessionKey sessionId events) = now"
| "opTime (Flush now send) = now"

fun neverFails :: "outbox_op \<Rightarrow> bool" where
  "neverFails (Enqueue now uuid sessionKey sessionId events) = True"
| "neverFails (Flush now send) = (\<forall>n sessionId events. send n sessionId events = Inr ())"

subsection \<open>Queues, ids and example runs\<close>

definition ids :: "OpenVikingOutboxItem list \<Rightarrow> string list" where
  "ids xs = map item_id xs"

definition queue :: "OpenVikingOutbox \<Rightarrow> OpenVikingOutboxItem list" where
  "queue ob = items (load ob)"

definition oneEvent :: "OpenVikingSessionEvent list" where
  "oneEvent =
     [\<lparr>event_id = ''e'', event_type = ''message'', role = Some ''user'', content = Some ''hi'',
       cause = None, metadata = None\<rparr>]"

definition flakyOnce :: sender where
  "flakyOnce n sessionId events = (if n = 0 then Inl (Error ''store down'') else Inr ())"

definition alwaysUp :: sender where
  "alwaysUp n sessionId events = Inr ()"

definition overtakingRun :: "outbox_op list" where
  "overtakingRun =
     [Enqueue 0 ''a'' ''main'' ''ov-1'' oneEvent,
      Enqueue 1 ''b'' ''main'' ''ov-1'' oneEvent,
      Flush 2 flakyOnce,
      Flush 100000 alwaysUp]"

text \<open>
  A file left by an earlier run: a line that does not parse, and an item that failed once and is
  due again.
\<close>

definition carriedOver :: "outbox_line list" where
  "carriedOver =
     [MalformedLine,
      ItemLine \<lparr>item_id = ''z'', createdAt = 0, updatedAt = 0, attempts = 1, nextAttemptAt = 0,
                item_sessionKey = ''main'', item_sessionId = ''ov-1'', item_events = oneEvent\<rparr>]"

definition steadyRun :: "outbox_op list" where
  "steadyRun =
     [Enqueue 0 ''a'' ''main'' ''ov-1'' oneEvent,
      Enqueue 1 ''b'' ''main'' ''ov-1'' oneEvent,
      Flush 2 alwaysUp,
      Enqueue 3 ''c'' ''main'' ''ov-1'' oneEvent,
      Flush 4 alwaysUp]"

subsection \<open>Order within a flush and across flushes\<close>

lemma ids_simps [simp]: "ids [] = []" "ids (x # xs) = item_id x # ids xs" "ids (xs @ ys) = ids xs @ ids ys"
  by (simp_all add: ids_def)

lemma load_idem [simp]: "load (load ob) = load ob"
  by (simp add: load_def Let_def)

lemma loaded_load [simp]: "loaded (load ob)"
  by (simp add: load_def Let_def)

lemma flushing_load [simp]: "flushing (load ob) = flushing ob"
  by (simp add: load_def Let_def)

lemma load_loaded: "loaded ob \<Longrightarrow> load ob = ob"
  by (simp add: load_def)

lemma queue_enqueue:
  "events \<noteq> [] \<Longrightarrow>
     queue (snd (enqueue now uuid sessionKey sessionId events ob)) =
       queue ob @ [\<lparr>item_id = uuid, createdAt = now, updatedAt = now, attempts = 0,
                    nextAttemptAt = now, item_sessionKey = sessionKey, item_sessionId = sessionId,
                    item_events = events\<rparr>]"
  by (simp add: enqueue_def queue_def Let_def persist_def load_def)

lemma flushing_enqueue [simp]:
  "flushing (snd (enqueue now uuid sessionKey sessionId events ob)) = flushing ob"
  by (simp add: enqueue_def Let_def persist_def)

lemma enqueue_no_events [simp]: "snd (enqueue now uuid sessionKey sessionId [] ob) = ob"
  by (simp add: enqueue_def)

text \<open>What the loop of a flush does to the queue, whatever the sender does.\<close>

lemma flushLoop_order:
  "\<exists>d. fp_delivered (flushLoop ob now send its fp) = fp_delivered fp @ d \<and> subseq d its
     \<and> ids (fp_items (flushLoop ob now send its fp)) = ids (fp_items fp) @ ids its"
proof (induction its arbitrary: fp)
  case Nil
  then show ?case by simp
next
  case (Cons item rest)
  show ?case
  proof (cases "int (fp_sent fp) \<ge> ob_maxBatchSize ob")
    case True
    then show ?thesis by (auto intro!: exI[of _ "[]"])
  next
    case nb: False
    show ?thesis
    proof (cases "nextAttemptAt item > now")
      case True
      from Cons.IH[of "fp\<lparr>fp_items := fp_items fp @ [item]\<rparr>"] nb True
      show ?thesis by auto
    next
      case ready: False
      show ?thesis
      proof (cases "send (fp_sent fp + fp_errors fp) (item_sessionId item) (item_events item)")
        case (Inl e)
        obtain message where e: "e = Error message" by (cases e)
        let ?n = "attempts item + 1"
        let ?fp = "fp\<lparr>fp_items := fp_items fp
                          @ [item\<lparr>attempts := ?n, updatedAt := now,
                                  nextAttemptAt := now + min (ob_retryMaxMs ob)
                                    (ob_retryBaseMs ob * 2 ^ nat (max 0 (?n - 1)))\<rparr>],
                       fp_errors := fp_errors fp + 1,
                       fp_lastError := Some message\<rparr>"
        from Cons.IH[of ?fp] nb ready Inl e show ?thesis
          by (auto simp: Let_def)
      next
        case (Inr u)
        let ?fp = "fp\<lparr>fp_items := fp_items fp @ [item\<lparr>attempts := - 1\<rparr>],
                   fp_delivered := fp_delivered fp @ [item],
                   fp_sent := fp_sent fp + 1\<rparr>"
        from Cons.IH[of ?fp] obtain d where
          d: "fp_delivered (flushLoop ob now send rest ?fp) = fp_delivered ?fp @ d" "subseq d rest"
            "ids (fp_items (flushLoop ob now send rest ?fp)) = ids (fp_items ?fp) @ ids rest"
          by blast
        with nb ready Inr show ?thesis
          by (intro exI[of _ "item # d"]) auto
      qed
    qed
  qed
qed

lemma subseq_extend: "subseq xs ys \<Longrightarrow> subseq xs (ys @ zs)"
  using list_emb_append_mono[of "(=)" xs ys "[]" zs] by simp

lemma subseq_ids: "subseq xs ys \<Longrightarrow> subseq (ids xs) (ids ys)"
  by (simp add: ids_def subseq_map)

lemma subseq_filter_ids: "subseq (ids (filter P xs)) (ids xs)"
  by (simp add: subseq_ids)

lemma flush_order:
  assumes "flush now send ob = (batch, ob1)"
  shows "subseq (ids batch) (ids (queue ob)) \<and> subseq (ids (queue ob1)) (ids (queue ob))"
proof (cases "flushing ob")
  case True
  with assms show ?thesis by (simp add: flush_def)
next
  case False
  let ?ob1 = "(load ob)\<lparr>flushing := True\<rparr>"
  let ?start = "\<lparr>fp_items = [], fp_delivered = [], fp_sent = 0, fp_errors = 0,
                fp_lastError = lastError ?ob1\<rparr>"
  let ?fp = "flushLoop ?ob1 now send (items ?ob1) ?start"
  from flushLoop_order[of ?ob1 now send "items ?ob1" ?start] obtain d where
    d: "fp_delivered ?fp = d" "subseq d (items ?ob1)" "ids (fp_items ?fp) = ids (items ?ob1)"
    by auto
  have q: "items ?ob1 = queue ob" by (simp add: queue_def)
  have b: "batch = fp_delivered ?fp"
    using assms False by (simp add: flush_def Let_def)
  have "items ob1 = fp_items ?fp \<or> items ob1 = filter (\<lambda>item. attempts item \<ge> 0) (fp_items ?fp)"
    using assms False by (auto simp: flush_def Let_def persist_def split: if_splits)
  moreover have "loaded ob1"
    using assms False by (auto simp: flush_def Let_def persist_def split: if_splits)
  ultimately have "queue ob1 = fp_items ?fp \<or> queue ob1 = filter (\<lambda>item. attempts item \<ge> 0) (fp_items ?fp)"
    by (simp add: queue_def load_loaded)
  then have "subseq (ids (queue ob1)) (ids (fp_items ?fp))"
    by (auto simp: subseq_filter_ids)
  with d b q show ?thesis by (simp add: subseq_ids)
qed

lemma run_batches_in_order:
  "runOutbox ops ob = (batches, ob') \<Longrightarrow>
     list_all (\<lambda>batch. subseq (ids batch) (ids (queue ob) @ enqueuedIds ops)) batches"
proof (induction ops arbitrary: ob batches)
  case Nil
  then show ?case by simp
next
  case (Cons op ops)
  show ?case
  proof (cases op)
    case (Enqueue now uuid sessionKey sessionId events)
    with Cons.prems have r: "runOutbox ops (snd (enqueue now uuid sessionKey sessionId events ob)) = (batches, ob')"
      by simp
    show ?thesis
    proof (cases "events = []")
      case True
      with Cons.IH[OF r] Enqueue show ?thesis by simp
    next
      case False
      with Cons.IH[OF r] Enqueue show ?thesis by (simp add: queue_enqueue)
    qed
  next
    case (Flush now send)
    obtain batch ob1 where f: "flush now send ob = (batch, ob1)" by (cases "flush now send ob")
    obtain rest where r: "runOutbox ops ob1 = (rest, ob')" and b: "batches = batch # rest"
      using Cons.prems Flush f by (auto split: prod.splits)
    from flush_order[OF f] have o: "subseq (ids batch) (ids (queue ob))"
      "subseq (ids (queue ob1)) (ids (queue ob))" by simp_all
    have mono: "subseq xs (ids (queue ob) @ enqueuedIds ops)"
      if "subseq xs (ids (queue ob1) @ enqueuedIds ops)" for xs
      using that o(2) by (meson list_emb_append_mono subseq_order.order_refl subseq_order.order_trans)
    have "list_all (\<lambda>batch. subseq (ids batch) (ids (queue ob) @ enqueuedIds ops)) rest"
      using Cons.IH[OF r] by (auto simp: list_all_iff intro: mono)
    moreover have "subseq (ids batch) (ids (queue ob) @ enqueuedIds ops)"
      using o(1) by (rule subseq_extend)
    ultimately show ?thesis using b Flush by simp
  qed
qed

lemma flushLoop_all_sent:
  assumes "\<forall>item\<in>set its. nextAttemptAt item \<le> now"
    and "\<forall>n sessionId events. send n sessionId events = Inr ()"
  shows "\<exists>d r. its = d @ r
     \<and> fp_delivered (flushLoop ob now send its fp) = fp_delivered fp @ d
     \<and> fp_items (flushLoop ob now send its fp) =
         fp_items fp @ map (\<lambda>item. item\<lparr>attempts := - 1\<rparr>) d @ r
     \<and> fp_sent (flushLoop ob now send its fp) = fp_sent fp + length d
     \<and> fp_errors (flushLoop ob now send its fp) = fp_errors fp
     \<and> fp_lastError (flushLoop ob now send its fp) = fp_lastError fp"
  using assms(1)
proof (induction its arbitrary: fp)
  case Nil
  then show ?case by simp
next
  case (Cons item rest)
  show ?case
  proof (cases "int (fp_sent fp) \<ge> ob_maxBatchSize ob")
    case True
    then show ?thesis by (auto intro!: exI[of _ "[]"])
  next
    case False
    let ?fp = "fp\<lparr>fp_items := fp_items fp @ [item\<lparr>attempts := - 1\<rparr>],
                   fp_delivered := fp_delivered fp @ [item],
                   fp_sent := fp_sent fp + 1\<rparr>"
    from Cons.prems have "\<forall>item\<in>set rest. nextAttemptAt item \<le> now" by simp
    from Cons.IH[OF this, of ?fp] obtain d r where
      d: "rest = d @ r"
        "fp_delivered (flushLoop ob now send rest ?fp) = fp_delivered ?fp @ d"
        "fp_items (flushLoop ob now send rest ?fp) =
           fp_items ?fp @ map (\<lambda>item. item\<lparr>attempts := - 1\<rparr>) d @ r"
        "fp_sent (flushLoop ob now send rest ?fp) = fp_sent ?fp + length d"
        "fp_errors (flushLoop ob now send rest ?fp) = fp_errors ?fp"
        "fp_lastError (flushLoop ob now send rest ?fp) = fp_lastError ?fp"
      by blast
    from Cons.prems have ready: "\<not> nextAttemptAt item > now" by simp
    have s: "send (fp_sent fp + fp_errors fp) (item_sessionId item) (item_events item) = Inr ()"
      using assms(2) by blast
    show ?thesis
      apply (rule exI[of _ "item # d"])
      apply (rule exI[of _ r])
      using False ready s d by simp
  qed
qed

lemma flush_result:
  assumes "flush now send ob = (batch, ob1)" "\<not> flushing ob"
    and "fp = flushLoop ((load ob)\<lparr>flushing := True\<rparr>) now send (items (load ob))
                \<lparr>fp_items = [], fp_delivered = [], fp_sent = 0, fp_errors = 0,
                 fp_lastError = lastError (load ob)\<rparr>"
  shows "batch = fp_delivered fp" "loaded ob1" "\<not> flushing ob1"
    "items ob1 = (if fp_sent fp > 0 then filter (\<lambda>item. attempts item \<ge> 0) (fp_items fp)
                  else fp_items fp)"
  using assms by (auto simp: flush_def Let_def persist_def split: if_splits)

lemma flush_all_sent:
  assumes f: "flush now send ob = (batch, ob1)"
    and nf: "\<not> flushing ob"
    and ready: "\<forall>item\<in>set (queue ob). 0 \<le> attempts item \<and> nextAttemptAt item \<le> now"
    and ok: "\<forall>n sessionId events. send n sessionId events = Inr ()"
  shows "queue ob = batch @ queue ob1 \<and> \<not> flushing ob1"
proof -
  let ?ob1 = "(load ob)\<lparr>flushing := True\<rparr>"
  let ?start = "\<lparr>fp_items = [], fp_delivered = [], fp_sent = 0, fp_errors = 0,
                fp_lastError = lastError ?ob1\<rparr>"
  let ?fp = "flushLoop ?ob1 now send (items ?ob1) ?start"
  have q: "items ?ob1 = queue ob" by (simp add: queue_def)
  have r1: "\<forall>item\<in>set (items ?ob1). nextAttemptAt item \<le> now" using ready q by simp
  from flushLoop_all_sent[OF r1 ok, of ?ob1 ?start] obtain d r where
    d: "items ?ob1 = d @ r" "fp_delivered ?fp = d"
      "fp_items ?fp = map (\<lambda>item. item\<lparr>attempts := - 1\<rparr>) d @ r"
      "fp_sent ?fp = length d"
    by auto
  have fp: "?fp = flushLoop ((load ob)\<lparr>flushing := True\<rparr>) now send (items (load ob))
                \<lparr>fp_items = [], fp_delivered = [], fp_sent = 0, fp_errors = 0,
                 fp_lastError = lastError (load ob)\<rparr>"
    by simp
  note res = flush_result[OF f nf fp]
  have b: "batch = d" using res(1) d(2) by simp
  have l: "loaded ob1" "\<not> flushing ob1" using res(2,3) by simp_all
  have keep: "filter (\<lambda>item. attempts item \<ge> 0) (map (\<lambda>item. item\<lparr>attempts := - 1\<rparr>) d @ r) = r"
  proof -
    have "set r \<subseteq> set (queue ob)" using q d(1) by (metis set_append sup_ge2)
    then have "\<forall>item\<in>set r. 0 \<le> attempts item" using ready by blast
    then have "filter (\<lambda>item. attempts item \<ge> 0) r = r" by (simp add: filter_id_conv)
    moreover have "filter (\<lambda>item. attempts item \<ge> 0) (map (\<lambda>item. item\<lparr>attempts := - 1\<rparr>) d) = []"
      by (simp add: filter_empty_conv)
    ultimately show ?thesis by simp
  qed
  have "items ob1 = r"
  proof (cases "d = []")
    case True
    with res(4) d(3,4) show ?thesis by simp
  next
    case False
    then have "fp_sent ?fp > 0" using d(4) by simp
    with res(4) d(3) keep show ?thesis by simp
  qed
  with l have "queue ob1 = r" by (simp add: queue_def load_loaded)
  with b d(1) q l show ?thesis by simp
qed

lemma run_all_sent:
  assumes "\<not> flushing ob"
    and "\<forall>item\<in>set (queue ob). 0 \<le> attempts item \<and> nextAttemptAt item \<le> t"
    and "sorted (t # map opTime ops)"
    and "list_all neverFails ops"
    and "runOutbox ops ob = (batches, ob')"
  shows "ids (concat batches) @ ids (queue ob') = ids (queue ob) @ enqueuedIds ops"
  using assms
proof (induction ops arbitrary: ob t batches)
  case Nil
  then show ?case by simp
next
  case (Cons op ops)
  have later: "t \<le> opTime op" "sorted (opTime op # map opTime ops)"
    using Cons.prems(3) by simp_all
  have rest: "list_all neverFails ops" using Cons.prems(4) by simp
  show ?case
  proof (cases op)
    case (Enqueue now uuid sessionKey sessionId events)
    let ?ob1 = "snd (enqueue now uuid sessionKey sessionId events ob)"
    from Cons.prems(5) Enqueue have r: "runOutbox ops ?ob1 = (batches, ob')" by simp
    have nf: "\<not> flushing ?ob1" using Cons.prems(1) by simp
    show ?thesis
    proof (cases "events = []")
      case True
      have "\<forall>item\<in>set (queue ?ob1). 0 \<le> attempts item \<and> nextAttemptAt item \<le> now"
        using Cons.prems(2) later(1) Enqueue True by fastforce
      from Cons.IH[OF nf this _ rest r] later(2) Enqueue True show ?thesis by simp
    next
      case False
      have "\<forall>item\<in>set (queue ?ob1). 0 \<le> attempts item \<and> nextAttemptAt item \<le> now"
        using Cons.prems(2) later(1) Enqueue False by (fastforce simp: queue_enqueue)
      from Cons.IH[OF nf this _ rest r] later(2) Enqueue False show ?thesis
        by (simp add: queue_enqueue)
    qed
  next
    case (Flush now send)
    obtain batch ob1 where f: "flush now send ob = (batch, ob1)" by (cases "flush now send ob")
    obtain more where r: "runOutbox ops ob1 = (more, ob')" and b: "batches = batch # more"
      using Cons.prems(5) Flush f by (auto split: prod.splits)
    have ok: "\<forall>n sessionId events. send n sessionId events = Inr ()"
      using Cons.prems(4) Flush by simp
    have ready: "\<forall>item\<in>set (queue ob). 0 \<le> attempts item \<and> nextAttemptAt item \<le> now"
      using Cons.prems(2) later(1) Flush by fastforce
    from flush_all_sent[OF f Cons.prems(1) ready ok]
    have q: "queue ob = batch @ queue ob1" and nf: "\<not> flushing ob1" by simp_all
    have ready1: "\<forall>item\<in>set (queue ob1). 0 \<le> attempts item \<and> nextAttemptAt item \<le> now"
      using ready q by simp
    from Cons.IH[OF nf ready1 _ rest r] later(2) Flush
    have "ids (concat more) @ ids (queue ob') = ids (queue ob1) @ enqueuedIds ops" by simp
    with q b Flush show ?thesis by simp
  qed
qed

lemmas outbox_eval =
  runOutbox.simps enqueue_def flush_def load_def persist_def newOutbox_def flushLoop.simps
  exampleConfig_def oneEvent_def flakyOnce_def alwaysUp_def Let_def ids_def queue_def

subsection \<open>Claim about the outbox\<close>

text \<open>
  Claim C3 as stated fails. A flush goes on to the next item when a send fails, so a later item
  is delivered while the failed one waits for its retry: \<open>a\<close> and \<open>b\<close> are enqueued in this
  order, the first flush fails on \<open>a\<close> and delivers \<open>b\<close>, the second delivers \<open>a\<close>.
\<close>

theorem later_item_overtakes_failed_item:
  "enqueuedIds overtakingRun = [''a'', ''b'']
   \<and> map ids (fst (runOutbox overtakingRun (newOutbox (outbox (exampleConfig Async 24)) []))) =
       [[''b''], [''a'']]
   \<and> ids (concat (fst (runOutbox overtakingRun (newOutbox (outbox (exampleConfig Async 24)) [])))) \<noteq>
       enqueuedIds overtakingRun"
  by (simp add: overtakingRun_def outbox_eval)

text \<open>
  Claim C3, as amended. For every sequence of enqueue and flush operations on one outbox,
  started on any file, the items one flush delivers are delivered in the order of their enqueue
  (the order of the file for those loaded from it). When moreover
  \<^item> no send fails,
  \<^item> the clock never runs backwards from a time \<open>t\<close> on, and
  \<^item> no item on the file waits for a retry: each has \<open>nextAttemptAt \<le> t\<close>, and
    \<open>attempts \<ge> 0\<close> as every item has that the outbox wrote,

  the order of all deliveries is the order of enqueue: the ids delivered, flush after flush,
  followed by the ids still queued, are the ids of the file followed by the ids enqueued.
  (On a file with an item that waits for a retry, a later item is delivered first even though
  no send of the run fails.)
\<close>

theorem outbox_delivery_order:
  assumes "runOutbox ops (newOutbox params file) = (batches, ob')"
  shows "list_all (\<lambda>batch. subseq (ids batch) (ids (parseLines file) @ enqueuedIds ops)) batches
    \<and> (list_all neverFails ops \<and> sorted (t # map opTime ops)
         \<and> list_all (\<lambda>item. 0 \<le> attempts item \<and> nextAttemptAt item \<le> t) (parseLines file) \<longrightarrow>
         ids (concat batches) @ ids (queue ob') = ids (parseLines file) @ enqueuedIds ops)"
proof -
  let ?ob = "newOutbox params file"
  have q: "queue ?ob = parseLines file"
    by (simp add: queue_def load_def newOutbox_def Let_def)
  have nf: "\<not> flushing ?ob" by (simp add: newOutbox_def)
  from run_batches_in_order[OF assms] q
  have one: "list_all (\<lambda>batch. subseq (ids batch) (ids (parseLines file) @ enqueuedIds ops)) batches"
    by simp
  have two: "ids (concat batches) @ ids (queue ob') = ids (parseLines file) @ enqueuedIds ops"
    if "list_all neverFails ops" "sorted (t # map opTime ops)"
      "list_all (\<lambda>item. 0 \<le> attempts item \<and> nextAttemptAt item \<le> t) (parseLines file)"
  proof -
    from that(3) q have "\<forall>item\<in>set (queue ?ob). 0 \<le> attempts item \<and> nextAttemptAt item \<le> t"
      by (simp add: list_all_iff)
    from run_all_sent[OF nf this that(2) that(1) assms] q show ?thesis by simp
  qed
  from one two show ?thesis by blast
qed

theorem outbox_delivery_order_witness:
  "list_all neverFails steadyRun \<and> sorted (0 # map opTime steadyRun)
   \<and> list_all (\<lambda>item. 0 \<le> attempts item \<and> nextAttemptAt item \<le> 0) (parseLines carriedOver)
   \<and> ids (parseLines carriedOver) = [''z'']
   \<and> enqueuedIds steadyRun = [''a'', ''b'', ''c'']
   \<and> map ids (fst (runOutbox steadyRun (newOutbox (outbox (exampleConfig Async 24)) carriedOver))) =
        [[''z'', ''a'', ''b''], [''c'']]
   \<and> ids (concat (fst (runOutbox steadyRun
                           (newOutbox (outbox (exampleConfig Async 24)) carriedOver))))
       @ ids (queue (snd (runOutbox steadyRun
                            (newOutbox (outbox (exampleConfig Async 24)) carriedOver)))) =
       ''z'' # enqueuedIds steadyRun"
proof -
  let ?run = "runOutbox steadyRun (newOutbox (outbox (exampleConfig Async 24)) carriedOver)"
  have h1: "list_all neverFails steadyRun" by (simp add: steadyRun_def alwaysUp_def)
  have h2: "sorted (0 # map opTime steadyRun)" by (simp add: steadyRun_def)
  have h3: "list_all (\<lambda>item. 0 \<le> attempts item \<and> nextAttemptAt item \<le> 0) (parseLines carriedOver)"
    by (simp add: carriedOver_def)
  have f: "ids (parseLines carriedOver) = [''z'']" by (simp add: carriedOver_def)
  have e: "enqueuedIds steadyRun = [''a'', ''b'', ''c'']" by (simp add: steadyRun_def oneEvent_def)
  have b: "map ids (fst ?run) = [[''z'', ''a'', ''b''], [''c'']]"
    by (simp add: steadyRun_def carriedOver_def outbox_eval)
  have r: "?run = (fst ?run, snd ?run)" by simp
  from outbox_delivery_order[OF r, of 0] h1 h2 h3 f
  have "ids (concat (fst ?run)) @ ids (queue (snd ?run)) = ''z'' # enqueuedIds steadyRun" by simp
  with h1 h2 h3 f e b show ?thesis by simp
qed

section \<open>Read pipeline (manager.ts)\<close>

record OpenVikingMatchedContext =
  mc_uri :: string
  mc_abstract :: "string option"
  mc_overview :: "string option"
  mc_score :: "number option"
  mc_match_reason :: "string option"

record OpenVikingSearchResult =
  memories :: "OpenVikingMatchedContext list"
  resources :: "OpenVikingMatchedContext list"
  skills :: "OpenVikingMatchedContext list"
  query_plan :: "json option"
  query_results :: "json option"

record SearchRequest =
  sr_query :: string
  sr_sessionId :: "string option"
  sr_targetUri :: string
  sr_limit :: int
  sr_scoreThreshold :: "real option"

text \<open>
  The store, as the read pipeline sees it: what each client call returns or throws. The walk over
  \<open>relations\<close> in \<open>expandRelationCandidates\<close> is not unfolded here; \<open>st_expansion\<close> stands
  for the relation candidates it comes back with, for the direct candidates, the decision and the
  seed uris it is given.
\<close>

datatype OpenVikingRecallOrigin = Direct | Relation

record OpenVikingSearchCandidate =
  cand_kind :: OpenVikingContextKind
  cand_context :: OpenVikingMatchedContext
  cand_score :: real
  cand_rank :: real
  cand_origin :: OpenVikingRecallOrigin
  cand_relationFrom :: "string option"
  cand_relationDepth :: "nat option"

record Store =
  st_search :: "SearchRequest \<Rightarrow> error + OpenVikingSearchResult"
  st_find :: "SearchRequest \<Rightarrow> error + OpenVikingSearchResult"
  st_read :: "string \<Rightarrow> error + string"
  st_abstract :: "string \<Rightarrow> error + string"
  st_overview :: "string \<Rightarrow> error + string"
  st_expansion ::
    "OpenVikingSearchCandidate list \<Rightarrow> OpenVikingSearchDecision \<Rightarrow> string list
       \<Rightarrow> OpenVikingSearchCandidate list"

record SearchOptions =
  maxResults :: "real option"
  minScore :: "real option"
  opt_sessionKey :: "string option"

datatype MemorySource = FromSessions | FromMemory

record MemorySearchResult =
  row_path :: string
  row_startLine :: nat
  row_endLine :: nat
  row_score :: real
  row_snippet :: string
  row_source :: MemorySource

datatype OpenVikingReadLayer = L0 | L1 | L2

definition resolveSourceFromUri :: "string \<Rightarrow> MemorySource" where
  "resolveSourceFromUri uri =
     (if includesStr (toLowerCase uri) ''viking://session/'' then FromSessions else FromMemory)"

text \<open>
  The score the pipeline goes on with:
  \<open>typeof context.score === "number" && Number.isFinite(context.score) ? context.score : 0\<close>.
\<close>

fun finiteScore :: "number option \<Rightarrow> real" where
  "finiteScore (Some (Finite s)) = s"
| "finiteScore _ = 0"

definition contextToMemoryResult :: "OpenVikingMatchedContext \<Rightarrow> string \<Rightarrow> MemorySearchResult" where
  "contextToMemoryResult ctx snippetOverride =
     (let uri = (if trim (mc_uri ctx) \<noteq> [] then mc_uri ctx else ''viking://'') in
      \<lparr>row_path = uri, row_startLine = 1, row_endLine = 1,
       row_score = finiteScore (mc_score ctx),
       row_snippet = snippetOverride,
       row_source = resolveSourceFromUri uri\<rparr>)"

definition collectContextsFromSearchResult ::
  "OpenVikingSearchResult \<Rightarrow> OpenVikingSearchDecision
     \<Rightarrow> (OpenVikingContextKind \<times> OpenVikingMatchedContext) list" where
  "collectContextsFromSearchResult result decision =
     map (Pair Memory) (memories result)
     @ (if decision_includeResources decision then map (Pair Resource) (resources result) else [])
     @ (if decision_includeSkills decision then map (Pair Skill) (skills result) else [])"

definition contextRankBonus :: "OpenVikingContextKind \<Rightarrow> OpenVikingSearchDecision \<Rightarrow> real" where
  "contextRankBonus kind decision =
     (if kind = decision_priority decision then 15 / 100
      else if kind = Memory then 5 / 100
      else 0)"

definition normalizeSnippetText :: "string option \<Rightarrow> string" where
  "normalizeSnippetText v = (case v of None \<Rightarrow> [] | Some s \<Rightarrow> if s = [] then [] else trim s)"

definition trimToMaxChars :: "string \<Rightarrow> int \<Rightarrow> string" where
  "trimToMaxChars v maxChars =
     (if maxChars \<le> 0 then []
      else if int (length v) \<le> maxChars then v
      else if maxChars \<le> 3 then take (nat maxChars) v
      else take (nat (max 0 (maxChars - 3))) v @ ''...'')"

definition decorateSnippetForRecall :: "string \<Rightarrow> OpenVikingSearchCandidate \<Rightarrow> bool \<Rightarrow> string" where
  "decorateSnippetForRecall snippet candidate relationExpansionEnabled =
     (if \<not> relationExpansionEnabled then snippet
      else if cand_origin candidate = Relation then
        ''[relation-expanded d''
        @ showNat (case cand_relationDepth candidate of None \<Rightarrow> 1 | Some d \<Rightarrow> d)
        @ '' from ''
        @ (case cand_relationFrom candidate of None \<Rightarrow> ''unknown'' | Some f \<Rightarrow> f)
        @ ''] '' @ snippet
      else ''[direct-hit] '' @ snippet)"

text \<open>The three readers of \<open>resolveContextSnippet\<close>; a failed call reads as the empty text.\<close>

definition readL2 :: "Store \<Rightarrow> string \<Rightarrow> string" where
  "readL2 store uri =
     (if uri = [] then []
      else (case st_read store uri of Inl e \<Rightarrow> [] | Inr t \<Rightarrow> normalizeSnippetText (Some t)))"

definition readL1 :: "Store \<Rightarrow> string \<Rightarrow> string \<Rightarrow> string" where
  "readL1 store uri inlineL1 =
     (if inlineL1 \<noteq> [] then inlineL1
      else if uri = [] then []
      else (case st_overview store uri of Inl e \<Rightarrow> [] | Inr t \<Rightarrow> normalizeSnippetText (Some t)))"

definition readL0 :: "Store \<Rightarrow> string \<Rightarrow> string \<Rightarrow> string" where
  "readL0 store uri inlineL0 =
     (if inlineL0 \<noteq> [] then inlineL0
      else if uri = [] then []
      else (case st_abstract store uri of Inl e \<Rightarrow> [] | Inr t \<Rightarrow> normalizeSnippetText (Some t)))"

definition resolveContextSnippet ::
  "Store \<Rightarrow> OpenVikingMatchedContext \<Rightarrow> OpenVikingSearchReadLayer \<Rightarrow> int
     \<Rightarrow> string \<times> OpenVikingReadLayer" where
  "resolveContextSnippet store ctx requestedLayer maxChars =
     (let uri = trim (mc_uri ctx);
          inlineL1 = normalizeSnippetText (mc_overview ctx);
          inlineL0 = (if normalizeSnippetText (mc_abstract ctx) \<noteq> []
                      then normalizeSnippetText (mc_abstract ctx)
                      else normalizeSnippetText (mc_match_reason ctx));
          usefulMinChars = max 40 (maxChars div 6);
          l2 = readL2 store uri;
          l1 = readL1 store uri inlineL1;
          l0 = readL0 store uri inlineL0;
          finalize = (\<lambda>layer text. (trimToMaxChars text maxChars, layer))
      in
      if requestedLayer = RL2 then
        (if l2 \<noteq> [] then finalize L2 l2
         else if l1 \<noteq> [] then finalize L1 l1
         else finalize L0 l0)
      else if requestedLayer = RL1 then
        (if l1 \<noteq> [] then finalize L1 l1
         else if l0 \<noteq> [] then finalize L0 l0
         else finalize L2 l2)
      else if requestedLayer = RL0 then
        (if l0 \<noteq> [] then finalize L0 l0
         else if l1 \<noteq> [] then finalize L1 l1
         else finalize L2 l2)
      else
        (if l1 \<noteq> [] \<and> int (length l1) \<ge> usefulMinChars then finalize L1 l1
         else if l0 \<noteq> [] \<and> int (length l0) \<ge> usefulMinChars then finalize L0 l0
         else if l2 \<noteq> [] then finalize L2 l2
         else if l1 \<noteq> [] then finalize L1 l1
         else finalize L0 l0))"

text \<open>
  \<open>collectPlanTargetDirectories\<close>: the trimmed string targets of the plan's queries, each at
  its first occurrence (\<open>seen\<close> and \<open>uris\<close> hold the same strings, so one list does for both).
\<close>

fun collectUnseen :: "string list \<Rightarrow> string list \<Rightarrow> string list" where
  "collectUnseen [] uris = uris"
| "collectUnseen (trimmed # targets) uris =
     (if trimmed = [] \<or> trimmed \<in> set uris then collectUnseen targets uris
      else collectUnseen targets (uris @ [trimmed]))"

fun jsonStrings :: "json list \<Rightarrow> string list" where
  "jsonStrings [] = []"
| "jsonStrings (JStr s # vs) = s # jsonStrings vs"
| "jsonStrings (v # vs) = jsonStrings vs"

definition queryTargets :: "json \<Rightarrow> string list" where
  "queryTargets entry =
     (case asRecord (Some entry) of
        None \<Rightarrow> []
      | Some row \<Rightarrow>
          (case jsonArray (map_of row ''target_directories'') of
             None \<Rightarrow> []
           | Some targets \<Rightarrow> map trim (jsonStrings targets)))"

definition collectPlanTargetDirectories :: "(string \<times> json) list option \<Rightarrow> string list" where
  "collectPlanTargetDirectories plan =
     (case (case plan of None \<Rightarrow> None | Some p \<Rightarrow> jsonArray (map_of p ''queries'')) of
        None \<Rightarrow> []
      | Some queries \<Rightarrow> collectUnseen (concat (map queryTargets queries)) [])"

definition expandRelationCandidates ::
  "ResolvedOpenVikingSearchConfig \<Rightarrow> Store \<Rightarrow> OpenVikingSearchCandidate list
     \<Rightarrow> OpenVikingSearchDecision \<Rightarrow> string list \<Rightarrow> OpenVikingSearchCandidate list" where
  "expandRelationCandidates cfg store directCandidates decision seedUris =
     (if \<not> relationExpansion cfg then []
      else st_expansion store directCandidates decision seedUris)"

text \<open>
  \<open>maxResults\<close> of \<open>search\<close>: the caller's \<open>maxResults\<close>, floored, when it is a positive
  number; the configured limit otherwise. The options hold finite numbers here.
\<close>

definition effectiveMaxResults :: "ResolvedOpenVikingSearchConfig \<Rightarrow> SearchOptions \<Rightarrow> int" where
  "effectiveMaxResults cfg opts =
     (case maxResults opts of
        None \<Rightarrow> limit cfg
      | Some m \<Rightarrow> if m > 0 then \<lfloor>m\<rfloor> else limit cfg)"

definition searchRequest ::
  "ResolvedOpenVikingSearchConfig \<Rightarrow> string option \<Rightarrow> string \<Rightarrow> SearchOptions \<Rightarrow> SearchRequest" where
  "searchRequest cfg sessionId trimmed opts =
     \<lparr>sr_query = trimmed, sr_sessionId = sessionId, sr_targetUri = targetUri cfg,
      sr_limit = effectiveMaxResults cfg opts,
      sr_scoreThreshold = (case minScore opts of None \<Rightarrow> scoreThreshold cfg | Some s \<Rightarrow> Some s)\<rparr>"

record SnippetLoopState =
  ls_rows :: "MemorySearchResult list"
  ls_l0 :: nat
  ls_l1 :: nat
  ls_l2 :: nat
  ls_remainingChars :: int
  ls_snippetChars :: int
  ls_truncatedByBudget :: bool
  ls_droppedByBudget :: int
  ls_skippedEmptySnippet :: nat
  ls_directSelected :: nat
  ls_relationSelected :: nat

definition countLayer :: "OpenVikingReadLayer \<Rightarrow> SnippetLoopState \<Rightarrow> SnippetLoopState" where
  "countLayer layer st =
     (case layer of
        L0 \<Rightarrow> st\<lparr>ls_l0 := ls_l0 st + 1\<rparr>
      | L1 \<Rightarrow> st\<lparr>ls_l1 := ls_l1 st + 1\<rparr>
      | L2 \<Rightarrow> st\<lparr>ls_l2 := ls_l2 st + 1\<rparr>)"

text \<open>
  The loop of \<open>search\<close> over the selected candidates; \<open>selectedLength\<close> is \<open>selected.length\<close> and
  \<open>index\<close> the loop index. Returning the state without a recursive call is the \<open>break\<close>.
\<close>

fun snippetLoop ::
  "ResolvedOpenVikingSearchConfig \<Rightarrow> Store \<Rightarrow> int \<Rightarrow> int \<Rightarrow> OpenVikingSearchCandidate list
     \<Rightarrow> SnippetLoopState \<Rightarrow> SnippetLoopState" where
  "snippetLoop cfg store selectedLength index [] st = st"
| "snippetLoop cfg store selectedLength index (candidate # rest) st =
     (let snippet = resolveContextSnippet store (cand_context candidate) (readLayer cfg)
                      (maxSnippetChars cfg)
      in
      if fst snippet = [] then
        snippetLoop cfg store selectedLength (index + 1) rest
          (st\<lparr>ls_skippedEmptySnippet := ls_skippedEmptySnippet st + 1\<rparr>)
      else if ls_remainingChars st \<le> 0 then
        st\<lparr>ls_truncatedByBudget := True, ls_droppedByBudget := selectedLength - index\<rparr>
      else
        (let decoratedSnippet =
               trimToMaxChars
                 (decorateSnippetForRecall (fst snippet) candidate (relationExpansion cfg))
                 (maxSnippetChars cfg);
             finalSnippet =
               (if int (length decoratedSnippet) > ls_remainingChars st
                then trimToMaxChars decoratedSnippet (ls_remainingChars st)
                else decoratedSnippet)
         in
         if finalSnippet = [] then
           st\<lparr>ls_truncatedByBudget := True, ls_droppedByBudget := selectedLength - index\<rparr>
         else
           (let st1 = st\<lparr>ls_rows := ls_rows st
                                  @ [contextToMemoryResult (cand_context candidate) finalSnippet]\<rparr>;
                st2 = (if cand_origin candidate = Relation
                       then st1\<lparr>ls_relationSelected := ls_relationSelected st1 + 1\<rparr>
                       else st1\<lparr>ls_directSelected := ls_directSelected st1 + 1\<rparr>);
                st3 = (countLayer (snd snippet) st2)
                        \<lparr>ls_snippetChars := ls_snippetChars st2 + int (length finalSnippet),
                         ls_remainingChars := ls_remainingChars st2 - int (length finalSnippet)\<rparr>
            in
            if ls_remainingChars st3 \<le> 0 then
              st3\<lparr>ls_truncatedByBudget := True, ls_droppedByBudget := selectedLength - (index + 1)\<rparr>
            else snippetLoop cfg store selectedLength (index + 1) rest st3)))"

text \<open>
  \<open>filtered.sort((a, b) => b.rank - a.rank || b.score - a.score)\<close>: stable, by descending rank
  and then descending score. Scores and ranks are real numbers here and their sums exact, where
  the code computes in double precision: two ranks that are equal here can differ there by a
  rounding error, and the rows then come in another order. Nothing below depends on the order.
\<close>

definition sortCandidates :: "OpenVikingSearchCandidate list \<Rightarrow> OpenVikingSearchCandidate list" where
  "sortCandidates candidates =
     sort_key (\<lambda>candidate. (- cand_rank candidate, - cand_score candidate)) candidates"

definition directCandidate ::
  "OpenVikingSearchDecision \<Rightarrow> OpenVikingContextKind \<times> OpenVikingMatchedContext
     \<Rightarrow> OpenVikingSearchCandidate" where
  "directCandidate decision entry =
     (let sc = finiteScore (mc_score (snd entry)) in
      \<lparr>cand_kind = fst entry, cand_context = snd entry, cand_score = sc,
       cand_rank = sc + contextRankBonus (fst entry) decision, cand_origin = Direct,
       cand_relationFrom = None, cand_relationDepth = None\<rparr>)"

text \<open>
  The contexts of the primary search, or of the \<open>find\<close> fallback when the primary search has
  none and the fallback has some; a fallback that throws is logged and changes nothing.
\<close>

definition gatherContexts ::
  "Store \<Rightarrow> SearchRequest \<Rightarrow> OpenVikingSearchResult \<Rightarrow> OpenVikingSearchDecision
     \<Rightarrow> (OpenVikingContextKind \<times> OpenVikingMatchedContext) list" where
  "gatherContexts store req result decision =
     (let contexts = collectContextsFromSearchResult result decision in
      if contexts \<noteq> [] then contexts
      else
        (case st_find store (req\<lparr>sr_sessionId := None\<rparr>) of
           Inl e \<Rightarrow> contexts
         | Inr findResult \<Rightarrow>
             (let fallbackContexts = collectContextsFromSearchResult findResult decision in
              if fallbackContexts \<noteq> [] then fallbackContexts else contexts)))"

definition selectCandidates ::
  "ResolvedOpenVikingSearchConfig \<Rightarrow> SearchOptions \<Rightarrow> OpenVikingSearchCandidate list
     \<Rightarrow> OpenVikingSearchCandidate list" where
  "selectCandidates cfg opts rankedRows =
     (let filtered = (case minScore opts of
                        None \<Rightarrow> rankedRows
                      | Some m \<Rightarrow> filter (\<lambda>entry. cand_score entry \<ge> m) rankedRows);
          hardLimit = max 1 (min (effectiveMaxResults cfg opts) (maxEntries cfg))
      in take (nat hardLimit) (sortCandidates filtered))"

text \<open>
  \<open>search\<close>, given the linked store session id that \<open>resolveLinkedOpenVikingSessionId\<close> finds.
  The model returns the state of the loop, whose \<open>ls_rows\<close> are the rows \<open>search\<close> returns and
  whose counters go into the diagnostics.
\<close>

definition searchState ::
  "ResolvedOpenVikingSearchConfig \<Rightarrow> Store \<Rightarrow> string option \<Rightarrow> string \<Rightarrow> SearchOptions
     \<Rightarrow> error + SnippetLoopState" where
  "searchState cfg store sessionId query opts =
     (let trimmed = trim query;
          start = \<lparr>ls_rows = [], ls_l0 = 0, ls_l1 = 0, ls_l2 = 0,
                   ls_remainingChars = max 1 (maxInjectedChars cfg), ls_snippetChars = 0,
                   ls_truncatedByBudget = False, ls_droppedByBudget = 0,
                   ls_skippedEmptySnippet = 0, ls_directSelected = 0, ls_relationSelected = 0\<rparr>
      in
      if trimmed = [] then Inr start
      else
        (case st_search store (searchRequest cfg sessionId trimmed opts) of
           Inl e \<Rightarrow> Inl e
         | Inr result \<Rightarrow>
             (let plan = asRecord (query_plan result);
                  queryResults = jsonArray (query_results result);
                  decision = resolveSearchDecision (strategy cfg) (includeResources cfg)
                               (includeSkills cfg) trimmed (opt_sessionKey opts) plan queryResults;
                  contexts = gatherContexts store (searchRequest cfg sessionId trimmed opts)
                               result decision;
                  directCandidates = map (directCandidate decision) contexts;
                  relationCandidates =
                    expandRelationCandidates cfg store directCandidates decision
                      (collectPlanTargetDirectories plan);
                  selected = selectCandidates cfg opts (directCandidates @ relationCandidates)
              in Inr (snippetLoop cfg store (int (length selected)) 0 selected start))))"

definition search ::
  "ResolvedOpenVikingSearchConfig \<Rightarrow> Store \<Rightarrow> string option \<Rightarrow> string \<Rightarrow> SearchOptions
     \<Rightarrow> error + MemorySearchResult list" where
  "search cfg store sessionId query opts =
     (case searchState cfg store sessionId query opts of
        Inl e \<Rightarrow> Inl e
      | Inr st \<Rightarrow> Inr (ls_rows st))"

subsection \<open>Notions for the claims about the read pipeline\<close>

text \<open>The injected characters of a result: the lengths of the rows' snippets, summed.\<close>

definition injectedChars :: "MemorySearchResult list \<Rightarrow> int" where
  "injectedChars rows = sum_list (map (\<lambda>row. int (length (row_snippet row))) rows)"

text \<open>
  \<open>finalSnippet\<close> of one round of the loop of \<open>search\<close>, and the state of the loop after the
  round has pushed its row; \<open>snippetLoop_step\<close> below restates the loop with them.
\<close>

definition finalSnippetOf ::
  "ResolvedOpenVikingSearchConfig \<Rightarrow> Store \<Rightarrow> OpenVikingSearchCandidate \<Rightarrow> SnippetLoopState
     \<Rightarrow> string" where
  "finalSnippetOf cfg store candidate st =
     (let snippet = resolveContextSnippet store (cand_context candidate) (readLayer cfg)
                      (maxSnippetChars cfg);
          decoratedSnippet =
            trimToMaxChars
              (decorateSnippetForRecall (fst snippet) candidate (relationExpansion cfg))
              (maxSnippetChars cfg)
      in if int (length decoratedSnippet) > ls_remainingChars st
         then trimToMaxChars decoratedSnippet (ls_remainingChars st)
         else decoratedSnippet)"

definition emitted ::
  "ResolvedOpenVikingSearchConfig \<Rightarrow> Store \<Rightarrow> OpenVikingSearchCandidate \<Rightarrow> SnippetLoopState
     \<Rightarrow> SnippetLoopState" where
  "emitted cfg store candidate st =
     (let snippet = resolveContextSnippet store (cand_context candidate) (readLayer cfg)
                      (maxSnippetChars cfg);
          finalSnippet = finalSnippetOf cfg store candidate st;
          st1 = st\<lparr>ls_rows := ls_rows st
                            @ [contextToMemoryResult (cand_context candidate) finalSnippet]\<rparr>;
          st2 = (if cand_origin candidate = Relation
                 then st1\<lparr>ls_relationSelected := ls_relationSelected st1 + 1\<rparr>
                 else st1\<lparr>ls_directSelected := ls_directSelected st1 + 1\<rparr>)
      in (countLayer (snd snippet) st2)
           \<lparr>ls_snippetChars := ls_snippetChars st2 + int (length finalSnippet),
            ls_remainingChars := ls_remainingChars st2 - int (length finalSnippet)\<rparr>)"

text \<open>
  A store with three memories, whose \<open>search\<close> honours the limit of the request and whose
  other calls fail, and a search configuration with a given limit and character budget.
\<close>

definition noteContext :: "string \<Rightarrow> string \<Rightarrow> real \<Rightarrow> OpenVikingMatchedContext" where
  "noteContext uri overview score =
     \<lparr>mc_uri = uri, mc_abstract = None, mc_overview = Some overview,
      mc_score = Some (Finite score),
      mc_match_reason = None\<rparr>"

definition noteContexts :: "OpenVikingMatchedContext list" where
  "noteContexts =
     [noteContext ''viking://user/memories/a'' ''alpha-note'' 3,
      noteContext ''viking://user/memories/b'' ''beta-note'' 2,
      noteContext ''viking://user/memories/c'' ''gamma-note'' 1]"

definition noteStore :: Store where
  "noteStore =
     \<lparr>st_search = (\<lambda>req. Inr \<lparr>memories = take (nat (sr_limit req)) noteContexts,
                              resources = [], skills = [], query_plan = None,
                              query_results = None\<rparr>),
      st_find = (\<lambda>req. Inl (Error ''unavailable'')),
      st_read = (\<lambda>uri. Inl (Error ''unavailable'')),
      st_abstract = (\<lambda>uri. Inl (Error ''unavailable'')),
      st_overview = (\<lambda>uri. Inl (Error ''unavailable'')),
      st_expansion = (\<lambda>directCandidates decision seedUris. [])\<rparr>"

definition noteSearchConfig :: "int \<Rightarrow> int \<Rightarrow> ResolvedOpenVikingSearchConfig" where
  "noteSearchConfig configLimit budget =
     \<lparr>limit = configLimit, scoreThreshold = None, targetUri = ''viking://user/memories'',
      includeResources = False, includeSkills = False, strategy = Memory_first, readLayer = RL1,
      maxEntries = 6, maxSnippetChars = 8, maxInjectedChars = budget,
      relationExpansion = False\<rparr>"

definition noteOptions :: "real option \<Rightarrow> SearchOptions" where
  "noteOptions m = \<lparr>maxResults = m, minScore = None, opt_sessionKey = None\<rparr>"

subsection \<open>Lemmas about the read pipeline\<close>

lemma injectedChars_simps [simp]:
  "injectedChars [] = 0"
  "injectedChars (rows @ [row]) = injectedChars rows + int (length (row_snippet row))"
  by (simp_all add: injectedChars_def)

lemma trimToMaxChars_length: "0 < m \<Longrightarrow> int (length (trimToMaxChars v m)) \<le> m"
  by (auto simp: trimToMaxChars_def)

lemma row_snippet_result [simp]: "row_snippet (contextToMemoryResult ctx s) = s"
  by (simp add: contextToMemoryResult_def Let_def)

lemma countLayer_fields [simp]:
  "ls_rows (countLayer layer st) = ls_rows st"
  "ls_remainingChars (countLayer layer st) = ls_remainingChars st"
  by (cases layer; simp add: countLayer_def)+

lemma snippetLoop_step:
  "snippetLoop cfg store n i (candidate # rest) st =
     (if fst (resolveContextSnippet store (cand_context candidate) (readLayer cfg)
                (maxSnippetChars cfg)) = [] then
        snippetLoop cfg store n (i + 1) rest
          (st\<lparr>ls_skippedEmptySnippet := ls_skippedEmptySnippet st + 1\<rparr>)
      else if ls_remainingChars st \<le> 0 \<or> finalSnippetOf cfg store candidate st = [] then
        st\<lparr>ls_truncatedByBudget := True, ls_droppedByBudget := n - i\<rparr>
      else if ls_remainingChars (emitted cfg store candidate st) \<le> 0 then
        (emitted cfg store candidate st)
          \<lparr>ls_truncatedByBudget := True, ls_droppedByBudget := n - (i + 1)\<rparr>
      else snippetLoop cfg store n (i + 1) rest (emitted cfg store candidate st))"
  by (simp add: Let_def finalSnippetOf_def emitted_def)

lemma finalSnippetOf_fits:
  "0 < ls_remainingChars st \<Longrightarrow>
     int (length (finalSnippetOf cfg store candidate st)) \<le> ls_remainingChars st"
  using trimToMaxChars_length[of "ls_remainingChars st"]
  by (auto simp: finalSnippetOf_def Let_def)

lemma emitted_fields:
  "ls_rows (emitted cfg store candidate st) =
     ls_rows st
     @ [contextToMemoryResult (cand_context candidate) (finalSnippetOf cfg store candidate st)]"
  "ls_remainingChars (emitted cfg store candidate st) =
     ls_remainingChars st - int (length (finalSnippetOf cfg store candidate st))"
  by (simp_all add: emitted_def Let_def)

text \<open>The loop keeps the budget: what is emitted and what remains add up to what there was.\<close>

lemma snippetLoop_budget:
  "0 \<le> ls_remainingChars st \<Longrightarrow>
     injectedChars (ls_rows (snippetLoop cfg store n i cands st))
       + ls_remainingChars (snippetLoop cfg store n i cands st) =
     injectedChars (ls_rows st) + ls_remainingChars st
     \<and> 0 \<le> ls_remainingChars (snippetLoop cfg store n i cands st)"
proof (induction cands arbitrary: st i)
  case Nil
  then show ?case by simp
next
  case (Cons candidate rest)
  let ?skip = "st\<lparr>ls_skippedEmptySnippet := ls_skippedEmptySnippet st + 1\<rparr>"
  let ?emit = "emitted cfg store candidate st"
  have skip: "0 \<le> ls_remainingChars ?skip" using Cons.prems by simp
  have emit: "0 \<le> ls_remainingChars ?emit" if "0 < ls_remainingChars st"
    using finalSnippetOf_fits[OF that, of cfg store candidate] by (simp add: emitted_fields)
  have sum: "injectedChars (ls_rows ?emit) + ls_remainingChars ?emit =
               injectedChars (ls_rows st) + ls_remainingChars st"
    by (simp add: emitted_fields)
  from Cons.IH[OF skip, of "i + 1"] Cons.prems sum emit
    Cons.IH[of ?emit "i + 1"]
  show ?case
    unfolding snippetLoop_step by (auto simp: not_le)
qed

lemma snippetLoop_spent:
  "ls_remainingChars st \<le> 0 \<Longrightarrow> ls_rows (snippetLoop cfg store n i cands st) = ls_rows st"
proof (induction cands arbitrary: st i)
  case Nil
  then show ?case by simp
next
  case (Cons candidate rest)
  from Cons.IH[where st = "st\<lparr>ls_skippedEmptySnippet := ls_skippedEmptySnippet st + 1\<rparr>"
        and i = "i + 1"]
    Cons.prems
  show ?case unfolding snippetLoop_step by simp
qed

lemma snippetLoop_count:
  "length (ls_rows (snippetLoop cfg store n i cands st)) \<le> length (ls_rows st) + length cands"
proof (induction cands arbitrary: st i)
  case Nil
  then show ?case by simp
next
  case (Cons candidate rest)
  from Cons.IH[where st = "st\<lparr>ls_skippedEmptySnippet := ls_skippedEmptySnippet st + 1\<rparr>"
        and i = "i + 1"]
    Cons.IH[where st = "emitted cfg store candidate st" and i = "i + 1"]
  show ?case unfolding snippetLoop_step by (auto simp: emitted_fields)
qed

lemma selectCandidates_length:
  "int (length (selectCandidates cfg opts ranked)) \<le>
     max 1 (min (effectiveMaxResults cfg opts) (maxEntries cfg))"
  by (simp add: selectCandidates_def Let_def)

lemma search_rows:
  "search cfg store sessionId query opts = Inr rows \<Longrightarrow>
     injectedChars rows \<le> max 1 (maxInjectedChars cfg)
     \<and> int (length rows) \<le> max 1 (min (effectiveMaxResults cfg opts) (maxEntries cfg))"
proof -
  assume a: "search cfg store sessionId query opts = Inr rows"
  obtain st where st: "searchState cfg store sessionId query opts = Inr st" "rows = ls_rows st"
    using a by (auto simp: search_def split: sum.splits)
  let ?start = "\<lparr>ls_rows = [], ls_l0 = 0, ls_l1 = 0, ls_l2 = 0,
                  ls_remainingChars = max 1 (maxInjectedChars cfg), ls_snippetChars = 0,
                  ls_truncatedByBudget = False, ls_droppedByBudget = 0,
                  ls_skippedEmptySnippet = 0, ls_directSelected = 0, ls_relationSelected = 0\<rparr>"
  from st(1) consider "st = ?start"
    | ranked where "st = snippetLoop cfg store
                           (int (length (selectCandidates cfg opts ranked))) 0
                           (selectCandidates cfg opts ranked) ?start"
    by (auto simp: searchState_def Let_def split: if_splits sum.splits)
  then show ?thesis
  proof cases
    case 1
    then show ?thesis using st(2) by (simp add: le_max_iff_disj)
  next
    case 2
    have "0 \<le> ls_remainingChars ?start" by simp
    from snippetLoop_budget[OF this, of cfg store
        "int (length (selectCandidates cfg opts ranked))" 0 "selectCandidates cfg opts ranked"]
      snippetLoop_count[of cfg store "int (length (selectCandidates cfg opts ranked))" 0
        "selectCandidates cfg opts ranked" ?start]
      selectCandidates_length[of cfg opts ranked]
    show ?thesis using 2 st(2) by simp
  qed
qed

lemmas search_eval =
  search_def searchState_def searchRequest_def effectiveMaxResults_def selectCandidates_def
  sortCandidates_def directCandidate_def gatherContexts_def collectContextsFromSearchResult_def
  contextRankBonus_def expandRelationCandidates_def collectPlanTargetDirectories_def
  resolveContextSnippet_def readL0_def readL1_def readL2_def normalizeSnippetText_def
  trimToMaxChars_def decorateSnippetForRecall_def countLayer_def
  noteContext_def noteContexts_def noteStore_def noteSearchConfig_def noteOptions_def
  resolveSearchDecision_def trim_def js_whitespace_def Let_def

subsection \<open>Claims about the read pipeline\<close>

text \<open>
  Claim C1 as stated fails. The effective limit is the caller's \<open>maxResults\<close> alone; the
  configured limit is only the default when the caller gives none. With a configured limit of
  1 and \<open>maxResults = 2\<close> the request goes out with limit 2 and two rows come back, more than
  \<open>min(maxEntries, limit, maxResults) = 1\<close>.
\<close>

theorem maxResults_overrides_configured_limit:
  "effectiveMaxResults (noteSearchConfig 1 3200) (noteOptions (Some 2)) = 2
   \<and> min 2 (limit (noteSearchConfig 1 3200)) = 1
   \<and> min (maxEntries (noteSearchConfig 1 3200)) (min (limit (noteSearchConfig 1 3200)) 2) = 1
   \<and> search (noteSearchConfig 1 3200) noteStore None ''notes'' (noteOptions (Some 2)) =
       Inr [contextToMemoryResult (noteContexts ! 0) ''alpha...'',
            contextToMemoryResult (noteContexts ! 1) ''beta-...'']"
  by (simp add: search_eval)

text \<open>
  Claim C1, as amended. The effective search limit of \<open>search\<close> is the floor of
  \<open>options.maxResults\<close> when that is a positive number, and the configured limit when it is
  absent or not positive; it is the limit of the request sent to the store. The number of
  rows returned is at most \<open>max(1, min(effective limit, maxEntries))\<close>. So when
  \<open>1 \<le> options.maxResults \<le> limit\<close> and \<open>1 \<le> maxEntries\<close>, the number of rows is at most
  \<open>min(maxEntries, limit, floor(options.maxResults))\<close>.
\<close>

theorem search_row_count:
  "(\<forall>m. maxResults opts = Some m \<and> 0 < m \<longrightarrow> effectiveMaxResults cfg opts = \<lfloor>m\<rfloor>)
   \<and> (\<forall>m. maxResults opts = Some m \<and> m \<le> 0 \<longrightarrow> effectiveMaxResults cfg opts = limit cfg)
   \<and> (maxResults opts = None \<longrightarrow> effectiveMaxResults cfg opts = limit cfg)
   \<and> sr_limit (searchRequest cfg sessionId (trim query) opts) = effectiveMaxResults cfg opts
   \<and> (\<forall>rows. search cfg store sessionId query opts = Inr rows \<longrightarrow>
         int (length rows) \<le> max 1 (min (effectiveMaxResults cfg opts) (maxEntries cfg))
         \<and> (\<forall>m. maxResults opts = Some m \<and> 1 \<le> m \<and> m \<le> real_of_int (limit cfg)
                 \<and> 1 \<le> maxEntries cfg \<longrightarrow>
               int (length rows) \<le> min (maxEntries cfg) (min (limit cfg) \<lfloor>m\<rfloor>)))"
proof -
  have e: "effectiveMaxResults cfg opts = \<lfloor>m\<rfloor>" if "maxResults opts = Some m" "0 < m" for m
    using that by (simp add: effectiveMaxResults_def)
  have n: "effectiveMaxResults cfg opts = limit cfg" if "maxResults opts = Some m" "m \<le> 0" for m
    using that by (simp add: effectiveMaxResults_def)
  have d: "maxResults opts = None \<longrightarrow> effectiveMaxResults cfg opts = limit cfg"
    by (simp add: effectiveMaxResults_def)
  have r: "sr_limit (searchRequest cfg sessionId (trim query) opts) = effectiveMaxResults cfg opts"
    by (simp add: searchRequest_def)
  have c: "int (length rows) \<le> max 1 (min (effectiveMaxResults cfg opts) (maxEntries cfg))"
    if "search cfg store sessionId query opts = Inr rows" for rows
    using search_rows[OF that] by simp
  have s: "int (length rows) \<le> min (maxEntries cfg) (min (limit cfg) \<lfloor>m\<rfloor>)"
    if a: "search cfg store sessionId query opts = Inr rows"
      and m: "maxResults opts = Some m" "1 \<le> m" "m \<le> real_of_int (limit cfg)"
      and k: "1 \<le> maxEntries cfg" for rows m
  proof -
    have f: "1 \<le> \<lfloor>m\<rfloor>" "\<lfloor>m\<rfloor> \<le> limit cfg" using m(2,3) by linarith+
    have "effectiveMaxResults cfg opts = \<lfloor>m\<rfloor>" using e[OF m(1)] m(2) by simp
    with c[OF a] f k show ?thesis by simp
  qed
  from e n d r c s show ?thesis by blast
qed

theorem search_row_count_witness:
  "effectiveMaxResults (noteSearchConfig 3 3200) (noteOptions (Some (5 / 2))) = 2
   \<and> sr_limit (searchRequest (noteSearchConfig 3 3200) None (trim ''notes'')
                 (noteOptions (Some (5 / 2)))) = 2
   \<and> search (noteSearchConfig 3 3200) noteStore None ''notes'' (noteOptions (Some (5 / 2))) =
       Inr [contextToMemoryResult (noteContexts ! 0) ''alpha...'',
            contextToMemoryResult (noteContexts ! 1) ''beta-...'']
   \<and> int (length [contextToMemoryResult (noteContexts ! 0) ''alpha...'',
                   contextToMemoryResult (noteContexts ! 1) ''beta-...''])
       \<le> min (maxEntries (noteSearchConfig 3 3200)) (min (limit (noteSearchConfig 3 3200)) 2)"
proof -
  have f: "\<lfloor>5 / 2 :: real\<rfloor> = 2" by linarith
  have o: "maxResults (noteOptions (Some (5 / 2))) = Some (5 / 2)"
    by (simp add: noteOptions_def)
  have s: "search (noteSearchConfig 3 3200) noteStore None ''notes'' (noteOptions (Some (5 / 2))) =
       Inr [contextToMemoryResult (noteContexts ! 0) ''alpha...'',
            contextToMemoryResult (noteContexts ! 1) ''beta-...'']"
    by (simp add: search_eval f)
  have h: "(0::real) < 5 / 2" "(1::real) \<le> 5 / 2"
    "5 / 2 \<le> real_of_int (limit (noteSearchConfig 3 3200))"
    "1 \<le> maxEntries (noteSearchConfig 3 3200)"
    by (simp_all add: noteSearchConfig_def)
  note t = search_row_count[of "noteOptions (Some (5 / 2))" "noteSearchConfig 3 3200" None
      "''notes''" noteStore]
  from t o h(1)
  have e: "effectiveMaxResults (noteSearchConfig 3 3200) (noteOptions (Some (5 / 2))) =
             \<lfloor>5 / 2 :: real\<rfloor>"
    by blast
  from t
  have r: "sr_limit (searchRequest (noteSearchConfig 3 3200) None (trim ''notes'')
                      (noteOptions (Some (5 / 2)))) =
             effectiveMaxResults (noteSearchConfig 3 3200) (noteOptions (Some (5 / 2)))"
    by blast
  from t s o h(2,3,4)
  have c: "int (length [contextToMemoryResult (noteContexts ! 0) ''alpha...'',
                        contextToMemoryResult (noteContexts ! 1) ''beta-...''])
             \<le> min (maxEntries (noteSearchConfig 3 3200))
                  (min (limit (noteSearchConfig 3 3200)) \<lfloor>5 / 2 :: real\<rfloor>)"
    by blast
  from e r c s show ?thesis unfolding f by simp
qed

text \<open>
  Claim C2. With \<open>maxInjectedChars = B\<close>, \<open>B \<ge> 1\<close>, the lengths of the snippets of the rows one
  \<open>search\<close> returns sum to at most \<open>B\<close>. In the loop, the snippet of a round is no longer than
  the characters remaining, and from a state with nothing remaining no row is added.
\<close>

theorem search_injected_chars_within_budget:
  assumes "1 \<le> maxInjectedChars cfg"
  shows "(\<forall>rows. search cfg store sessionId query opts = Inr rows \<longrightarrow>
            injectedChars rows \<le> maxInjectedChars cfg)
         \<and> (\<forall>st candidate. 0 < ls_remainingChars st \<longrightarrow>
              int (length (finalSnippetOf cfg store candidate st)) \<le> ls_remainingChars st)
         \<and> (\<forall>st n i cands. ls_remainingChars st \<le> 0 \<longrightarrow>
              ls_rows (snippetLoop cfg store n i cands st) = ls_rows st)"
proof -
  have "injectedChars rows \<le> maxInjectedChars cfg"
    if "search cfg store sessionId query opts = Inr rows" for rows
    using search_rows[OF that] assms by simp
  then show ?thesis
    using finalSnippetOf_fits snippetLoop_spent by blast
qed

theorem search_injected_chars_within_budget_witness:
  "search (noteSearchConfig 10 5) noteStore None ''notes'' (noteOptions None) =
     Inr [contextToMemoryResult (noteContexts ! 0) ''al...'']
   \<and> injectedChars [contextToMemoryResult (noteContexts ! 0) ''al...''] = 5
   \<and> injectedChars [contextToMemoryResult (noteContexts ! 0) ''al...'']
       \<le> maxInjectedChars (noteSearchConfig 10 5)"
proof -
  have s: "search (noteSearchConfig 10 5) noteStore None ''notes'' (noteOptions None) =
     Inr [contextToMemoryResult (noteContexts ! 0) ''al...'']"
    by (simp add: search_eval)
  have b: "1 \<le> maxInjectedChars (noteSearchConfig 10 5)"
    by (simp add: noteSearchConfig_def)
  have i: "injectedChars [contextToMemoryResult (noteContexts ! 0) ''al...''] = 5"
    by (simp add: injectedChars_def)
  from search_injected_chars_within_budget[OF b, of noteStore None "''notes''" "noteOptions None"]
  show ?thesis using s i by auto
qed

end

